theory Spec2Isabelle
  imports Main
begin

section \<open>Characters and JavaScript string primitives\<close>

text \<open>A JavaScript string is a sequence of code units, here a list of characters. The parser
  compares code units only with the five characters below and with those of the two prefixes.\<close>

abbreviation space :: char where "space \<equiv> CHR 0x20"
abbreviation dquote :: char where "dquote \<equiv> CHR 0x22"
abbreviation squote :: char where "squote \<equiv> CHR 0x27"
abbreviation colon :: char where "colon \<equiv> CHR 0x3A"
abbreviation bslash :: char where "bslash \<equiv> CHR 0x5C"

text \<open>\<^verbatim>\<open>s[k]\<close>: indexing a string outside its range gives \<^verbatim>\<open>undefined\<close>, here \<open>None\<close>.\<close>

definition js_index :: "string \<Rightarrow> int \<Rightarrow> char option" where
  "js_index s k = (if 0 \<le> k \<and> k < int (length s) then Some (s ! nat k) else None)"

text \<open>\<^verbatim>\<open>s.substring(a, b)\<close>: the two indices are swapped when \<open>a > b\<close> and clamped to the
  length of the string.\<close>

definition substring :: "string \<Rightarrow> nat \<Rightarrow> nat \<Rightarrow> string" where
  "substring s a b = (let lo = min a b; hi = max a b in take (hi - lo) (drop lo s))"

text \<open>Interpolation of \<^verbatim>\<open>${s[k]}\<close> in a template string.\<close>

definition show_index :: "string \<Rightarrow> int \<Rightarrow> string" where
  "show_index s k = (case js_index s k of Some e \<Rightarrow> [e] | None \<Rightarrow> ''undefined'')"

text \<open>\<^verbatim>\<open>Set.prototype.add\<close> and \<^verbatim>\<open>Map.prototype.set\<close>: both containers keep insertion order;
  adding a present element changes nothing, setting a present key replaces its value in place.\<close>

fun set_add :: "'a \<Rightarrow> 'a list \<Rightarrow> 'a list" where
  "set_add x [] = [x]"
| "set_add x (y # ys) = (if y = x then y # ys else y # set_add x ys)"

fun map_set :: "'k \<Rightarrow> 'v \<Rightarrow> ('k \<times> 'v) list \<Rightarrow> ('k \<times> 'v) list" where
  "map_set k v [] = [(k, v)]"
| "map_set k v (p # ps) = (if fst p = k then (k, v) # ps else p # map_set k v ps)"

text \<open>\<^verbatim>\<open>Map.prototype.get\<close>.\<close>

fun map_get :: "('k \<times> 'v) list \<Rightarrow> 'k \<Rightarrow> 'v option" where
  "map_get [] k = None"
| "map_get (p # ps) k = (if fst p = k then Some (snd p) else map_get ps k)"

section \<open>Regular expressions of the sources\<close>

text \<open>The fragment of JavaScript regular expressions the sources use: literal characters,
  the anchors \<^verbatim>\<open>^\<close> and \<^verbatim>\<open>$\<close>, concatenation and alternation. Alternation binds weaker
  than concatenation, so \<^verbatim>\<open>(^"|')\<close> is the alternation of \<^verbatim>\<open>^"\<close> and \<^verbatim>\<open>'\<close>.\<close>

datatype regex = Bol | Eol | Lit char | Seq regex regex | Alt regex regex

text \<open>\<open>rmatch r s i\<close> lists the positions at which a match of \<open>r\<close> starting at position \<open>i\<close> of
  \<open>s\<close> can end.\<close>

fun rmatch :: "regex \<Rightarrow> string \<Rightarrow> nat \<Rightarrow> nat list" where
  "rmatch Bol s i = (if i = 0 then [i] else [])"
| "rmatch Eol s i = (if i = length s then [i] else [])"
| "rmatch (Lit c) s i = (if i < length s \<and> s ! i = c then [Suc i] else [])"
| "rmatch (Seq a b) s i = concat (map (rmatch b s) (rmatch a s i))"
| "rmatch (Alt a b) s i = rmatch a s i @ rmatch b s i"

text \<open>\<^verbatim>\<open>s.match(r)\<close> for a regular expression without the global flag is truthy exactly when
  \<open>r\<close> matches somewhere in \<open>s\<close>.\<close>

definition js_match :: "string \<Rightarrow> regex \<Rightarrow> bool" where
  "js_match s r = list_ex (\<lambda>i. rmatch r s i \<noteq> []) [0..<Suc (length s)]"

text \<open>\<^verbatim>\<open>s.replace(/ab/g, rep)\<close> for a pattern of two literal characters: the matches are
  found from left to right and do not overlap.\<close>

fun replace_all2 :: "char \<Rightarrow> char \<Rightarrow> string \<Rightarrow> string \<Rightarrow> string" where
  "replace_all2 a b rep (x # y # zs) =
     (if x = a \<and> y = b then rep @ replace_all2 a b rep zs
      else x # replace_all2 a b rep (y # zs))"
| "replace_all2 a b rep [x] = [x]"
| "replace_all2 a b rep [] = []"

section \<open>settings.ts\<close>

datatype SettingsChecks = minimum | twitch

text \<open>The optional fields \<^verbatim>\<open>checks?\<close> and \<^verbatim>\<open>forceParse?\<close> are \<open>None\<close> when absent.\<close>

record ParserSettings =
  prefix :: string
  optionPrefix :: string
  checks :: "SettingsChecks option"
  forceParse :: "bool option"

text \<open>\<^verbatim>\<open>new RegExp("(^\"|\')|(^$)|( )")\<close>.\<close>

definition anyOptionPrefixValidation :: regex where
  "anyOptionPrefixValidation =
     Alt (Alt (Alt (Seq Bol (Lit dquote)) (Lit squote)) (Seq Bol Eol)) (Lit space)"

text \<open>\<^verbatim>\<open>new RegExp("(^ )|( {2})")\<close>.\<close>

definition twitchPrefixValidation :: regex where
  "twitchPrefixValidation = Alt (Seq Bol (Lit space)) (Seq (Lit space) (Lit space))"

definition twitchOptionPrefixValidation :: regex where
  "twitchOptionPrefixValidation =
     Alt (Alt (Alt (Seq Bol (Lit dquote)) (Lit squote)) (Seq Bol Eol)) (Lit space)"

definition validSettings :: "ParserSettings \<Rightarrow> bool" where
  "validSettings settings =
     (let chk = (case checks settings of Some c \<Rightarrow> c | None \<Rightarrow> minimum) in
      case chk of
        twitch \<Rightarrow>
          if js_match (prefix settings) twitchPrefixValidation then False
          else if js_match (optionPrefix settings) twitchOptionPrefixValidation then False
          else True
      | minimum \<Rightarrow>
          if js_match (optionPrefix settings) anyOptionPrefixValidation then False
          else True)"

section \<open>The command parser\<close>

datatype error = ParseError nat string | ValidationError string

record Command =
  parserSettings :: ParserSettings
  name :: string
  arguments :: "string list"
  options :: "string list"
  parameters :: "(string \<times> string) list"
  source :: string
  passedChecks :: bool

datatype State =
  Prefix | Name | Default | OptionPrefix | Option | ParamConnector | Param
  | LongParam | EscapeLongParam | Argument | LongArgument | EscapeLongArgument

text \<open>The type \<^verbatim>\<open>"\"" | "\'"\<close> of the variable \<^verbatim>\<open>longType\<close>.\<close>

datatype LongType = DoubleTick | Tick

fun quote_char :: "LongType \<Rightarrow> char" where
  "quote_char DoubleTick = dquote"
| "quote_char Tick = squote"

text \<open>The assignment \<^verbatim>\<open>longType = c\<close>, made only where \<open>c\<close> is one of the two quotes.\<close>

definition long_type_of :: "char \<Rightarrow> LongType" where
  "long_type_of c = (if c = dquote then DoubleTick else Tick)"

text \<open>\<^verbatim>\<open>slice.replace(longType === "\"" ? re_doubletick : re_tick, longType)
       .replace(re_backslash, "\\")\<close>.\<close>

definition unescape :: "LongType \<Rightarrow> string \<Rightarrow> string" where
  "unescape lt slice =
     replace_all2 bslash bslash [bslash]
       (replace_all2 bslash (quote_char lt) [quote_char lt] slice)"

text \<open>The local variables of \<^verbatim>\<open>parse\<close> that live across iterations of the scan loop.\<close>

record scan_state =
  state :: State
  bufferStartIndex :: nat
  keyBuffer :: string
  longType :: LongType
  command :: Command

definition msg_expected :: "string \<Rightarrow> string" where
  "msg_expected e = ''expected '' @ [squote] @ e @ [squote]"

definition msg_space_after_prefix :: string where
  "msg_space_after_prefix = ''can'' @ [squote] @ ''t have space after prefix''"

definition msg_empty_option :: string where
  "msg_empty_option = ''expected option, options can'' @ [squote] @ ''t be empty''"

definition msg_empty_param :: string where
  "msg_empty_param =
     ''parameter value can'' @ [squote] @ ''t be empty (use '' @ [dquote, dquote] @ '' instead)''"

definition msg_escape :: "char \<Rightarrow> string" where
  "msg_escape c = ''couldn'' @ [squote] @ ''t escape with character '' @ [squote, c, squote]"

text \<open>One iteration of the loop body at index \<open>i\<close>: the \<^verbatim>\<open>switch (state)\<close>.\<close>

definition step :: "ParserSettings \<Rightarrow> string \<Rightarrow> nat \<Rightarrow> scan_state \<Rightarrow> error + scan_state" where
  "step settings src i s =
    (let c = src ! i;
         bufferIdx = int i - int (bufferStartIndex s)
     in case state s of
       Prefix \<Rightarrow>
         if Some c = js_index (prefix settings) bufferIdx then Inr s
         else if bufferIdx < int (length (prefix settings)) then
           Inl (ParseError i (msg_expected (show_index (prefix settings) bufferIdx)))
         else if c = space then Inl (ParseError i msg_space_after_prefix)
         else Inr (s\<lparr>state := Name, bufferStartIndex := i\<rparr>)
     | Name \<Rightarrow>
         if c = space then
           Inr (s\<lparr>state := Default, bufferStartIndex := i,
                  command := (command s)\<lparr>name := substring src (bufferStartIndex s) i\<rparr>\<rparr>)
         else Inr s
     | Default \<Rightarrow>
         if c = space then Inr s
         else if Some c = js_index (optionPrefix settings) 0 then
           Inr (s\<lparr>state := OptionPrefix, bufferStartIndex := i\<rparr>)
         else if c = dquote \<or> c = squote then
           Inr (s\<lparr>state := LongArgument, bufferStartIndex := i + 1, longType := long_type_of c\<rparr>)
         else Inr (s\<lparr>state := Argument, bufferStartIndex := i\<rparr>)
     | OptionPrefix \<Rightarrow>
         if Some c = js_index (optionPrefix settings) bufferIdx then Inr s
         else if bufferIdx < int (length (optionPrefix settings)) then
           Inr (s\<lparr>state := Argument\<rparr>)
         else if c = space then Inl (ParseError i msg_empty_option)
         else Inr (s\<lparr>state := Option, bufferStartIndex := i\<rparr>)
     | Option \<Rightarrow>
         if c = space then
           Inr (s\<lparr>state := Default, bufferStartIndex := i,
                  command := (command s)\<lparr>options :=
                    set_add (substring src (bufferStartIndex s) i) (options (command s))\<rparr>\<rparr>)
         else if c = colon then
           Inr (s\<lparr>state := ParamConnector, bufferStartIndex := i,
                  keyBuffer := substring src (bufferStartIndex s) i\<rparr>)
         else Inr s
     | ParamConnector \<Rightarrow>
         if c = space then Inl (ParseError i msg_empty_param)
         else if c = dquote \<or> c = squote then
           Inr (s\<lparr>state := LongParam, bufferStartIndex := i + 1, longType := long_type_of c\<rparr>)
         else Inr (s\<lparr>state := Param, bufferStartIndex := i\<rparr>)
     | Param \<Rightarrow>
         if c = space then
           Inr (s\<lparr>state := Default, bufferStartIndex := i,
                  command := (command s)\<lparr>parameters :=
                    map_set (keyBuffer s) (substring src (bufferStartIndex s) i)
                      (parameters (command s))\<rparr>\<rparr>)
         else Inr s
     | LongParam \<Rightarrow>
         if c = quote_char (longType s) then
           Inr (s\<lparr>state := Default, bufferStartIndex := i,
                  command := (command s)\<lparr>parameters :=
                    map_set (keyBuffer s)
                      (unescape (longType s) (substring src (bufferStartIndex s) i))
                      (parameters (command s))\<rparr>\<rparr>)
         else if c = bslash then Inr (s\<lparr>state := EscapeLongParam\<rparr>)
         else Inr s
     | EscapeLongParam \<Rightarrow>
         if c = bslash \<or> c = quote_char (longType s) then Inr (s\<lparr>state := LongParam\<rparr>)
         else Inl (ParseError i (msg_escape c))
     | Argument \<Rightarrow>
         if c = space then
           Inr (s\<lparr>state := Default, bufferStartIndex := i,
                  command := (command s)\<lparr>arguments :=
                    arguments (command s) @ [substring src (bufferStartIndex s) i]\<rparr>\<rparr>)
         else Inr s
     | LongArgument \<Rightarrow>
         if c = quote_char (longType s) then
           Inr (s\<lparr>state := Default, bufferStartIndex := i,
                  command := (command s)\<lparr>arguments :=
                    arguments (command s)
                      @ [unescape (longType s) (substring src (bufferStartIndex s) i)]\<rparr>\<rparr>)
         else if c = bslash then Inr (s\<lparr>state := EscapeLongArgument\<rparr>)
         else Inr s
     | EscapeLongArgument \<Rightarrow>
         if c = bslash \<or> c = quote_char (longType s) then Inr (s\<lparr>state := LongArgument\<rparr>)
         else Inl (ParseError i (msg_escape c)))"

text \<open>The loop \<^verbatim>\<open>for (let i = 0; i < source.length; i++)\<close>; a \<^verbatim>\<open>throw\<close> leaves it.\<close>

fun scan :: "ParserSettings \<Rightarrow> string \<Rightarrow> nat list \<Rightarrow> scan_state \<Rightarrow> error + scan_state" where
  "scan settings src [] s = Inr s"
| "scan settings src (i # is) s =
     (case step settings src i s of
        Inl e \<Rightarrow> Inl e
      | Inr s' \<Rightarrow> scan settings src is s')"

text \<open>The record \<^verbatim>\<open>command\<close> and the local variables before the loop.\<close>

definition init_command :: "ParserSettings \<Rightarrow> string \<Rightarrow> bool \<Rightarrow> Command" where
  "init_command settings src v =
     \<lparr>parserSettings = settings, name = [], arguments = [], options = [], parameters = [],
      source = src, passedChecks = v\<rparr>"

definition init_state :: "ParserSettings \<Rightarrow> string \<Rightarrow> bool \<Rightarrow> scan_state" where
  "init_state settings src v =
     \<lparr>state = Prefix, bufferStartIndex = 0, keyBuffer = [], longType = DoubleTick,
      command = init_command settings src v\<rparr>"

text \<open>\<^verbatim>\<open>CommandParser.parse\<close>, applied to the settings in force (the argument when given, the
  parser's own otherwise). \<^verbatim>\<open>!settings.forceParse\<close> holds when the field is absent or false.\<close>

definition parse :: "ParserSettings \<Rightarrow> string \<Rightarrow> error + Command" where
  "parse settings src =
    (let settingsValidation = validSettings settings in
     if \<not> settingsValidation \<and> \<not> (forceParse settings = Some True) then
       Inl (ValidationError ''error: validation failed'')
     else
       let src' = src @ [space] in
       case scan settings src' [0..<length src']
              (init_state settings src settingsValidation) of
         Inl e \<Rightarrow> Inl e
       | Inr s \<Rightarrow> Inr (command s))"

section \<open>Reference definitions\<close>

text \<open>The policy in force: \<^verbatim>\<open>settings.checks ? settings.checks : "minimum"\<close>.\<close>

definition policy :: "ParserSettings \<Rightarrow> SettingsChecks" where
  "policy st = (case checks st of Some c \<Rightarrow> c | None \<Rightarrow> minimum)"

text \<open>The strings the regular expression of the option prefix accepts, as a predicate.\<close>

definition option_prefix_rejected :: "string \<Rightarrow> bool" where
  "option_prefix_rejected s \<longleftrightarrow>
     s = [] \<or> hd s = dquote \<or> squote \<in> set s \<or> space \<in> set s"

text \<open>The rule of the specification for the option prefix: empty, starts with a quote, or
  contains a space.\<close>

definition spec_option_prefix_fails :: "string \<Rightarrow> bool" where
  "spec_option_prefix_fails s \<longleftrightarrow>
     s = [] \<or> take 1 s = [dquote] \<or> take 1 s = [squote] \<or> space \<in> set s"

fun has_double_space :: "string \<Rightarrow> bool" where
  "has_double_space (x # y # zs) = ((x = space \<and> y = space) \<or> has_double_space (y # zs))"
| "has_double_space _ = False"

text \<open>\<open>validate\<close> as the specification words it.\<close>

definition spec_validate :: "ParserSettings \<Rightarrow> bool" where
  "spec_validate st =
     (case (case checks st of Some c \<Rightarrow> c | None \<Rightarrow> minimum) of
        minimum \<Rightarrow> \<not> spec_option_prefix_fails (optionPrefix st)
      | twitch \<Rightarrow> \<not> (take 1 (prefix st) = [space] \<or> has_double_space (prefix st))
                  \<and> \<not> spec_option_prefix_fails (optionPrefix st))"

section \<open>Auxiliary notions for the proofs\<close>

text \<open>The settings of the examples in the documentation: prefix \<open>!\<close>, option prefix \<open>-\<close>.\<close>

definition bang_dash :: ParserSettings where
  "bang_dash = \<lparr>prefix = ''!'', optionPrefix = ''-'', checks = Some twitch, forceParse = None\<rparr>"

text \<open>The scan has left the states Prefix and Name: the name has been recorded.\<close>

definition named :: "scan_state \<Rightarrow> bool" where
  "named s \<longleftrightarrow> state s \<noteq> Prefix \<and> state s \<noteq> Name"

text \<open>The option prefix \<open>--\<close>, and a prefix that ends with a space.\<close>

definition bang_ddash :: ParserSettings where
  "bang_ddash = \<lparr>prefix = ''!'', optionPrefix = ''--'', checks = Some twitch, forceParse = None\<rparr>"

definition do_dash :: ParserSettings where
  "do_dash = \<lparr>prefix = ''do '', optionPrefix = ''-'', checks = Some twitch, forceParse = None\<rparr>"

text \<open>The text between two quotes \<open>q\<close> that the Long and Escape states accept without closing
  the token: no bare \<open>q\<close>, and every backslash is followed by a backslash or by \<open>q\<close>.\<close>

fun escaped_ok :: "char \<Rightarrow> string \<Rightarrow> bool" where
  "escaped_ok q [] = True"
| "escaped_ok q [c] = (c \<noteq> bslash \<and> c \<noteq> q)"
| "escaped_ok q (c # d # cs) =
     (if c = bslash then (d = bslash \<or> d = q) \<and> escaped_ok q cs
      else c \<noteq> q \<and> escaped_ok q (d # cs))"

text \<open>The escapes of the README read from left to right: a backslash stands for the character
  that follows it.\<close>

fun decode :: "string \<Rightarrow> string" where
  "decode (c # d # cs) = (if c = bslash then d # decode cs else c # decode (d # cs))"
| "decode [c] = [c]"
| "decode [] = []"

text \<open>The containers of a Command hold no element and no key twice.\<close>

definition containers_ok :: "Command \<Rightarrow> bool" where
  "containers_ok c \<longleftrightarrow> distinct (options c) \<and> distinct (map fst (parameters c))"

text \<open>Before the step at index \<open>i\<close>: an open name token started earlier, and a recorded name is
  not empty.\<close>

definition name_inv :: "nat \<Rightarrow> scan_state \<Rightarrow> bool" where
  "name_inv i s \<longleftrightarrow>
     (state s = Name \<longrightarrow> bufferStartIndex s < i) \<and> (named s \<longrightarrow> name (command s) \<noteq> [])"

section \<open>The scan loop\<close>

lemma scan_append:
  "scan st src (xs @ ys) s =
     (case scan st src xs s of Inl e \<Rightarrow> Inl e | Inr s' \<Rightarrow> scan st src ys s')"
  by (induction xs arbitrary: s) (auto split: sum.splits)

lemma scan_upt_split:
  assumes "a \<le> b" "b \<le> c"
  shows "scan st src [a..<c] s =
     (case scan st src [a..<b] s of Inl e \<Rightarrow> Inl e | Inr s' \<Rightarrow> scan st src [b..<c] s')"
proof -
  have "[a..<c] = [a..<b] @ [b..<c]"
    using assms by (metis le_Suc_ex upt_add_eq_append)
  then show ?thesis by (simp add: scan_append)
qed

lemma scan_upt_last:
  assumes "a \<le> b"
  shows "scan st src [a..<Suc b] s =
     (case scan st src [a..<b] s of Inl e \<Rightarrow> Inl e | Inr s' \<Rightarrow> step st src b s')"
  using assms by (simp add: scan_append split: sum.splits)

lemma scan_upt_first:
  assumes "a < b"
  shows "scan st src [a..<b] s =
     (case step st src a s of Inl e \<Rightarrow> Inl e | Inr s' \<Rightarrow> scan st src [Suc a..<b] s')"
  using assms by (simp add: upt_conv_Cons)

lemma step_no_validation: "step st src i s \<noteq> Inl (ValidationError m)"
  by (cases "state s") (auto simp: step_def Let_def)

lemma scan_no_validation: "scan st src is s \<noteq> Inl (ValidationError m)"
proof (induction "is" arbitrary: s)
  case Nil
  show ?case by simp
next
  case (Cons i "is")
  show ?case
  proof (cases "step st src i s")
    case (Inl e)
    then show ?thesis using step_no_validation[of st src i s m] by auto
  next
    case (Inr s')
    then show ?thesis using Cons.IH[of s'] by simp
  qed
qed

lemma step_passedChecks:
  "step st src i s = Inr s' \<Longrightarrow> passedChecks (command s') = passedChecks (command s)"
  by (cases "state s") (auto simp: step_def Let_def split: if_splits)

lemma scan_passedChecks:
  "scan st src is s = Inr s' \<Longrightarrow> passedChecks (command s') = passedChecks (command s)"
proof (induction "is" arbitrary: s)
  case Nil
  then show ?case by simp
next
  case (Cons i "is")
  then show ?case
    by (auto split: sum.splits dest: step_passedChecks)
qed

lemma parse_gate_closed:
  "\<not> validSettings st \<Longrightarrow> forceParse st \<noteq> Some True \<Longrightarrow>
   parse st src = Inl (ValidationError ''error: validation failed'')"
  by (simp add: parse_def)

lemma parse_gate_open:
  "validSettings st \<or> forceParse st = Some True \<Longrightarrow>
   parse st src =
     (case scan st (src @ [space]) [0..<Suc (length src)] (init_state st src (validSettings st)) of
        Inl e \<Rightarrow> Inl e | Inr s \<Rightarrow> Inr (command s))"
  by (auto simp: parse_def Let_def)

section \<open>Validation gating\<close>

text \<open>
  C5. \<open>parse\<close> raises a ValidationError, before the scan and so without an index or a partial
  Command, exactly when \<open>validSettings\<close> is false on the settings used and \<open>forceParse\<close> is
  false or absent. Otherwise it runs the scan over the source and the sentinel, and every
  Command it returns has \<open>passedChecks\<close> equal to the result of \<open>validSettings\<close>: false when
  parsing was forced on invalid settings, true when the settings are valid.
\<close>

theorem parse_validation_gating:
  "((\<exists>m. parse st src = Inl (ValidationError m))
      \<longleftrightarrow> (\<not> validSettings st \<and> forceParse st \<noteq> Some True))
   \<and> (\<not> validSettings st \<and> forceParse st \<noteq> Some True
        \<longrightarrow> parse st src = Inl (ValidationError ''error: validation failed''))
   \<and> (validSettings st \<or> forceParse st = Some True \<longrightarrow>
        parse st src =
          (case scan st (src @ [space]) [0..<Suc (length src)]
                  (init_state st src (validSettings st)) of
             Inl e \<Rightarrow> Inl e | Inr s \<Rightarrow> Inr (command s)))
   \<and> (\<forall>cmd. parse st src = Inr cmd \<longrightarrow> passedChecks cmd = validSettings st)"
proof -
  have open1: "validSettings st \<or> forceParse st = Some True \<Longrightarrow>
        \<not> (\<exists>m. parse st src = Inl (ValidationError m))"
    using scan_no_validation[of st "src @ [space]" "[0..<Suc (length src)]"
            "init_state st src (validSettings st)"]
    by (auto simp: parse_gate_open split: sum.splits)
  have pc: "\<And>cmd. parse st src = Inr cmd \<Longrightarrow> passedChecks cmd = validSettings st"
  proof -
    fix cmd assume h: "parse st src = Inr cmd"
    then have g: "validSettings st \<or> forceParse st = Some True"
      using parse_gate_closed[of st src] by auto
    from h obtain s where
      "scan st (src @ [space]) [0..<Suc (length src)] (init_state st src (validSettings st)) = Inr s"
      and "cmd = command s"
      unfolding parse_gate_open[OF g] by (auto split: sum.splits)
    then show "passedChecks cmd = validSettings st"
      using scan_passedChecks by (fastforce simp: init_state_def init_command_def)
  qed
  show ?thesis
    using open1 pc parse_gate_closed[of st src] parse_gate_open[of st src] by blast
qed

theorem parse_validation_gating_witness:
  "parse \<lparr>prefix = ''!'', optionPrefix = ''opt '', checks = Some twitch, forceParse = None\<rparr>
      ''!ping'' = Inl (ValidationError ''error: validation failed'')
   \<and> (\<exists>cmd. parse \<lparr>prefix = ''!'', optionPrefix = ''opt '', checks = Some twitch,
                      forceParse = Some True\<rparr> ''!ping'' = Inr cmd
            \<and> name cmd = ''ping'' \<and> passedChecks cmd = False)
   \<and> (\<exists>cmd. parse \<lparr>prefix = ''!'', optionPrefix = ''-'', checks = Some twitch,
                      forceParse = None\<rparr> ''!ping'' = Inr cmd
            \<and> name cmd = ''ping'' \<and> passedChecks cmd = True)"
proof -
  let ?A = "\<lparr>prefix = ''!'', optionPrefix = ''opt '', checks = Some twitch, forceParse = None\<rparr>"
  let ?B = "\<lparr>prefix = ''!'', optionPrefix = ''opt '', checks = Some twitch,
             forceParse = Some True\<rparr>"
  let ?C = "\<lparr>prefix = ''!'', optionPrefix = ''-'', checks = Some twitch, forceParse = None\<rparr>"
  have a: "\<not> validSettings ?A \<and> forceParse ?A \<noteq> Some True" by code_simp
  have b: "\<not> validSettings ?B" by code_simp
  have c: "validSettings ?C" by code_simp
  have "parse ?B ''!ping'' = Inr \<lparr>parserSettings = ?B, name = ''ping'', arguments = [],
            options = [], parameters = [], source = ''!ping'', passedChecks = False\<rparr>"
    by code_simp
  then have pb: "\<exists>cmd. parse ?B ''!ping'' = Inr cmd \<and> name cmd = ''ping''" by simp
  have "parse ?C ''!ping'' = Inr \<lparr>parserSettings = ?C, name = ''ping'', arguments = [],
            options = [], parameters = [], source = ''!ping'', passedChecks = True\<rparr>"
    by code_simp
  then have pc: "\<exists>cmd. parse ?C ''!ping'' = Inr cmd \<and> name cmd = ''ping''" by simp
  have 1: "parse ?A ''!ping'' = Inl (ValidationError ''error: validation failed'')"
    using parse_validation_gating[of ?A "''!ping''"] a by blast
  have 2: "\<exists>cmd. parse ?B ''!ping'' = Inr cmd \<and> name cmd = ''ping'' \<and> passedChecks cmd = False"
    using parse_validation_gating[of ?B "''!ping''"] b pb by blast
  have 3: "\<exists>cmd. parse ?C ''!ping'' = Inr cmd \<and> name cmd = ''ping'' \<and> passedChecks cmd = True"
    using parse_validation_gating[of ?C "''!ping''"] c pc by blast
  show ?thesis using 1 2 3 by blast
qed

section \<open>Settings validation\<close>

lemma js_match_iff: "js_match s r \<longleftrightarrow> (\<exists>i\<le>length s. rmatch r s i \<noteq> [])"
proof -
  have "set [0..<Suc (length s)] = {i. i \<le> length s}" by auto
  then show ?thesis by (simp add: js_match_def list_ex_iff)
qed

lemma js_match_Lit: "js_match s (Lit c) \<longleftrightarrow> c \<in> set s"
  by (auto simp: js_match_iff in_set_conv_nth intro: less_imp_le)

lemma js_match_Alt: "js_match s (Alt a b) \<longleftrightarrow> js_match s a \<or> js_match s b"
  by (auto simp: js_match_iff)

lemma js_match_Bol_Lit: "js_match s (Seq Bol (Lit c)) \<longleftrightarrow> s \<noteq> [] \<and> hd s = c"
  by (cases s) (auto simp: js_match_iff)

lemma js_match_Bol_Eol: "js_match s (Seq Bol Eol) \<longleftrightarrow> s = []"
  by (auto simp: js_match_iff)

lemma rmatch_Lit_Lit:
  "rmatch (Seq (Lit c) (Lit d)) s i \<noteq> [] \<longleftrightarrow> Suc i < length s \<and> s ! i = c \<and> s ! Suc i = d"
proof (cases "i < length s \<and> s ! i = c")
  case True
  then have "rmatch (Lit c) s i = [Suc i]" by simp
  then have "rmatch (Seq (Lit c) (Lit d)) s i = rmatch (Lit d) s (Suc i)" by simp
  then show ?thesis using True by auto
next
  case False
  then have "rmatch (Lit c) s i = []" by auto
  then have "rmatch (Seq (Lit c) (Lit d)) s i = []" by simp
  then show ?thesis using False by auto
qed

lemma js_match_Lit_Lit:
  "js_match s (Seq (Lit c) (Lit d)) \<longleftrightarrow> (\<exists>i. Suc i < length s \<and> s ! i = c \<and> s ! Suc i = d)"
proof -
  have "(\<exists>i\<le>length s. Suc i < length s \<and> s ! i = c \<and> s ! Suc i = d)
      \<longleftrightarrow> (\<exists>i. Suc i < length s \<and> s ! i = c \<and> s ! Suc i = d)"
    (is "?L \<longleftrightarrow> ?R")
  proof
    assume ?L
    then show ?R by blast
  next
    assume ?R
    then obtain i where h: "Suc i < length s" "s ! i = c" "s ! Suc i = d" by blast
    then have "i \<le> length s" by simp
    with h show ?L by blast
  qed
  then show ?thesis unfolding js_match_iff rmatch_Lit_Lit .
qed

text \<open>What the three regular expressions accept.\<close>

lemma anyOptionPrefixValidation_iff:
  "js_match s anyOptionPrefixValidation \<longleftrightarrow>
     (s \<noteq> [] \<and> hd s = dquote) \<or> squote \<in> set s \<or> s = [] \<or> space \<in> set s"
  by (simp add: anyOptionPrefixValidation_def js_match_Alt js_match_Lit js_match_Bol_Lit
      js_match_Bol_Eol)

lemma twitchOptionPrefixValidation_iff:
  "js_match s twitchOptionPrefixValidation \<longleftrightarrow>
     (s \<noteq> [] \<and> hd s = dquote) \<or> squote \<in> set s \<or> s = [] \<or> space \<in> set s"
  by (simp add: twitchOptionPrefixValidation_def js_match_Alt js_match_Lit js_match_Bol_Lit
      js_match_Bol_Eol)

lemma twitchPrefixValidation_iff:
  "js_match s twitchPrefixValidation \<longleftrightarrow>
     (s \<noteq> [] \<and> hd s = space) \<or> (\<exists>i. Suc i < length s \<and> s ! i = space \<and> s ! Suc i = space)"
  by (simp add: twitchPrefixValidation_def js_match_Alt js_match_Bol_Lit js_match_Lit_Lit)

lemma validSettings_iff:
  "validSettings st \<longleftrightarrow>
     \<not> option_prefix_rejected (optionPrefix st) \<and>
     (policy st = twitch \<longrightarrow>
        \<not> (prefix st \<noteq> [] \<and> hd (prefix st) = space) \<and>
        \<not> (\<exists>i. Suc i < length (prefix st) \<and> prefix st ! i = space \<and> prefix st ! Suc i = space))"
  by (cases "policy st")
    (auto simp: validSettings_def policy_def option_prefix_rejected_def
      anyOptionPrefixValidation_iff twitchOptionPrefixValidation_iff twitchPrefixValidation_iff
      split: option.splits SettingsChecks.splits)

lemma has_double_space_iff:
  "has_double_space s \<longleftrightarrow> (\<exists>i. Suc i < length s \<and> s ! i = space \<and> s ! Suc i = space)"
proof (induction s rule: has_double_space.induct)
  case (1 x y zs)
  show ?case
  proof
    assume "has_double_space (x # y # zs)"
    then consider "x = space \<and> y = space" | "has_double_space (y # zs)" by auto
    then show "\<exists>i. Suc i < length (x # y # zs) \<and> (x # y # zs) ! i = space
                 \<and> (x # y # zs) ! Suc i = space"
    proof cases
      case 1
      then have "Suc 0 < length (x # y # zs) \<and> (x # y # zs) ! 0 = space
                 \<and> (x # y # zs) ! Suc 0 = space" by simp
      then show ?thesis by blast
    next
      case 2
      then obtain i where "Suc i < length (y # zs)" "(y # zs) ! i = space"
        "(y # zs) ! Suc i = space" using "1.IH" by blast
      then have "Suc (Suc i) < length (x # y # zs) \<and> (x # y # zs) ! Suc i = space
                 \<and> (x # y # zs) ! Suc (Suc i) = space" by simp
      then show ?thesis by blast
    qed
  next
    assume "\<exists>i. Suc i < length (x # y # zs) \<and> (x # y # zs) ! i = space
                 \<and> (x # y # zs) ! Suc i = space"
    then obtain i where h: "Suc i < length (x # y # zs)" "(x # y # zs) ! i = space"
        "(x # y # zs) ! Suc i = space" by blast
    show "has_double_space (x # y # zs)"
    proof (cases i)
      case 0
      then show ?thesis using h by simp
    next
      case (Suc j)
      then have "Suc j < length (y # zs) \<and> (y # zs) ! j = space \<and> (y # zs) ! Suc j = space"
        using h by simp
      then have "has_double_space (y # zs)" using "1.IH" by blast
      then show ?thesis by simp
    qed
  qed
qed simp_all

text \<open>The code and the reference definition differ only on an inner single quote.\<close>

lemma validSettings_spec_validate:
  assumes "squote \<notin> set (tl (optionPrefix st))"
  shows "validSettings st = spec_validate st"
proof -
  have q: "squote \<in> set (optionPrefix st) \<longleftrightarrow> take 1 (optionPrefix st) = [squote]"
    using assms by (cases "optionPrefix st") auto
  have d: "optionPrefix st \<noteq> [] \<and> hd (optionPrefix st) = dquote
            \<longleftrightarrow> take 1 (optionPrefix st) = [dquote]"
    by (cases "optionPrefix st") auto
  have s: "prefix st \<noteq> [] \<and> hd (prefix st) = space \<longleftrightarrow> take 1 (prefix st) = [space]"
    by (cases "prefix st") auto
  have o: "option_prefix_rejected (optionPrefix st) = spec_option_prefix_fails (optionPrefix st)"
    unfolding option_prefix_rejected_def spec_option_prefix_fails_def using q d by auto
  show ?thesis
    unfolding validSettings_iff spec_validate_def policy_def o
    using s has_double_space_iff[of "prefix st"]
    by (auto split: option.splits SettingsChecks.splits)
qed

text \<open>
  C2. \<open>validSettings\<close> against the reference definition of the specification: under the
  minimum policy an option prefix is rejected when it is empty, starts with a double or single
  quote, or contains a space. On the option prefix \<open>a'\<close>, which only contains a single quote
  after its first character, the reference definition accepts and the code rejects.
\<close>

theorem validSettings_inner_quote:
  "validSettings \<lparr>prefix = ''!'', optionPrefix = [CHR ''a'', squote], checks = None,
                   forceParse = None\<rparr> = False
   \<and> spec_validate \<lparr>prefix = ''!'', optionPrefix = [CHR ''a'', squote], checks = None,
                   forceParse = None\<rparr> = True"
  by code_simp

section \<open>Runs of the scan loop\<close>

lemma scan_run_id:
  assumes "\<And>m. a \<le> m \<Longrightarrow> m < b \<Longrightarrow> step st src m s = Inr s"
  shows "scan st src [a..<b] s = Inr s"
  using assms
proof (induction b)
  case 0
  show ?case by simp
next
  case (Suc b)
  show ?case
  proof (cases "a \<le> b")
    case True
    have "scan st src [a..<b] s = Inr s" using Suc by simp
    moreover have "step st src b s = Inr s" using Suc.prems True by simp
    ultimately show ?thesis using True by (simp add: scan_upt_last del: upt_Suc)
  next
    case False
    then show ?thesis by simp
  qed
qed

lemma scan_error_at:
  assumes "k < n" "scan st src [0..<k] s = Inr s'" "step st src k s' = Inl e"
  shows "scan st src [0..<n] s = Inl e"
proof -
  have "scan st src [0..<n] s =
        (case scan st src [0..<Suc k] s of Inl e \<Rightarrow> Inl e | Inr t \<Rightarrow> scan st src [Suc k..<n] t)"
    using assms(1) by (intro scan_upt_split) simp_all
  moreover have "scan st src [0..<Suc k] s = Inl e"
    using assms(2,3) by (simp add: scan_upt_last del: upt_Suc)
  ultimately show ?thesis by simp
qed

lemma js_index_nat: "js_index s (int k) = (if k < length s then Some (s ! k) else None)"
  by (simp add: js_index_def)

lemma step_Prefix:
  assumes "state s = Prefix" "bufferStartIndex s = 0"
  shows "step st src i s =
     (if i < length (prefix st) \<and> src ! i = prefix st ! i then Inr s
      else if i < length (prefix st) then Inl (ParseError i (msg_expected [prefix st ! i]))
      else if src ! i = space then Inl (ParseError i msg_space_after_prefix)
      else Inr (s\<lparr>state := Name, bufferStartIndex := i\<rparr>))"
  using assms by (auto simp: step_def Let_def js_index_nat show_index_def)

lemma step_Name:
  assumes "state s = Name"
  shows "step st src i s =
     (if src ! i = space then
        Inr (s\<lparr>state := Default, bufferStartIndex := i,
               command := (command s)\<lparr>name := substring src (bufferStartIndex s) i\<rparr>\<rparr>)
      else Inr s)"
  using assms by (simp add: step_def Let_def)

lemma scan_prefix_run:
  assumes "state s = Prefix" "bufferStartIndex s = 0" "k \<le> length (prefix st)"
    and "\<And>m. m < k \<Longrightarrow> src ! m = prefix st ! m"
  shows "scan st src [0..<k] s = Inr s"
  using assms by (intro scan_run_id) (simp add: step_Prefix)

lemma substring_mid: "substring (xs @ ys @ zs) (length xs) (length xs + length ys) = ys"
  by (simp add: substring_def)

lemma scan_name:
  assumes src: "src = prefix st @ nm @ space # rest"
    and nm: "nm \<noteq> []" "space \<notin> set nm"
    and s0: "state s = Prefix" "bufferStartIndex s = 0"
  shows "scan st src [0..<Suc (length (prefix st) + length nm)] s =
     Inr (s\<lparr>state := Default, bufferStartIndex := length (prefix st) + length nm,
            command := (command s)\<lparr>name := nm\<rparr>\<rparr>)"
proof -
  let ?A = "length (prefix st)"
  let ?B = "?A + length nm"
  let ?s1 = "s\<lparr>state := Name, bufferStartIndex := ?A\<rparr>"
  have at_nm: "\<And>m. ?A \<le> m \<Longrightarrow> m < ?B \<Longrightarrow> src ! m \<noteq> space"
  proof -
    fix m assume "?A \<le> m" "m < ?B"
    then have "src ! m = nm ! (m - ?A)" "m - ?A < length nm"
      by (auto simp: src nth_append)
    then show "src ! m \<noteq> space" using nm(2) by (metis nth_mem)
  qed
  have r1: "scan st src [0..<?A] s = Inr s"
    using s0 by (intro scan_prefix_run) (simp_all add: src nth_append)
  have "src ! ?A \<noteq> space" using at_nm[of ?A] nm(1) by simp
  then have r2: "step st src ?A s = Inr ?s1"
    using s0 by (simp add: step_Prefix)
  have r3: "scan st src [Suc ?A..<?B] ?s1 = Inr ?s1"
    using at_nm by (intro scan_run_id) (simp add: step_Name)
  have "src ! ?B = space" by (simp add: src nth_append)
  moreover have "substring src ?A ?B = nm"
    unfolding src by (rule substring_mid)
  ultimately have r4: "step st src ?B ?s1 =
      Inr (s\<lparr>state := Default, bufferStartIndex := ?B, command := (command s)\<lparr>name := nm\<rparr>\<rparr>)"
    by (simp add: step_Name)
  have lt: "?A < ?B" using nm(1) by simp
  have "scan st src [0..<Suc ?B] s =
      (case scan st src [0..<?B] s of Inl e \<Rightarrow> Inl e | Inr t \<Rightarrow> step st src ?B t)"
    by (rule scan_upt_last) simp
  also have "scan st src [0..<?B] s =
      (case scan st src [0..<?A] s of Inl e \<Rightarrow> Inl e | Inr t \<Rightarrow> scan st src [?A..<?B] t)"
    by (rule scan_upt_split) simp_all
  also have "\<dots> = scan st src [?A..<?B] s" by (simp add: r1)
  also have "\<dots> = scan st src [Suc ?A..<?B] ?s1"
    using lt by (simp add: scan_upt_first r2 del: upt_Suc)
  also have "\<dots> = Inr ?s1" by (rule r3)
  finally show ?thesis by (simp add: r4)
qed

lemma step_Default:
  assumes "state s = Default"
  shows "step st src i s =
     (if src ! i = space then Inr s
      else if Some (src ! i) = js_index (optionPrefix st) 0 then
        Inr (s\<lparr>state := OptionPrefix, bufferStartIndex := i\<rparr>)
      else if src ! i = dquote \<or> src ! i = squote then
        Inr (s\<lparr>state := LongArgument, bufferStartIndex := i + 1,
               longType := long_type_of (src ! i)\<rparr>)
      else Inr (s\<lparr>state := Argument, bufferStartIndex := i\<rparr>))"
  using assms by (simp add: step_def Let_def)

lemma init_state_simps:
  "state (init_state st src v) = Prefix"
  "bufferStartIndex (init_state st src v) = 0"
  "keyBuffer (init_state st src v) = []"
  "longType (init_state st src v) = DoubleTick"
  "command (init_state st src v) = init_command st src v"
  by (simp_all add: init_state_def)

lemma step_named:
  assumes "named s" "step st src i s = Inr s'"
  shows "named s' \<and> name (command s') = name (command s)"
  using assms by (cases "state s") (auto simp: named_def step_def Let_def split: if_splits)

lemma scan_named:
  "named s \<Longrightarrow> scan st src is s = Inr s' \<Longrightarrow>
   named s' \<and> name (command s') = name (command s)"
proof (induction "is" arbitrary: s)
  case Nil
  then show ?case by simp
next
  case (Cons i "is")
  from Cons.prems(2) obtain t where t: "step st src i s = Inr t" "scan st src is t = Inr s'"
    by (auto split: sum.splits)
  from step_named[OF Cons.prems(1) t(1)] Cons.IH[OF _ t(2)] show ?case by simp
qed

lemma parse_error_at:
  assumes gate: "validSettings st \<or> forceParse st = Some True"
    and k: "k \<le> length src"
    and run: "scan st (src @ [space]) [0..<k] (init_state st src (validSettings st)) = Inr s"
    and err: "step st (src @ [space]) k s = Inl e"
  shows "parse st src = Inl e"
proof -
  have "k < Suc (length src)" using k by simp
  from scan_error_at[OF this run err] show ?thesis
    unfolding parse_gate_open[OF gate] by simp
qed

lemma parse_after_name:
  assumes gate: "validSettings st \<or> forceParse st = Some True"
    and nm: "nm \<noteq> []" "space \<notin> set nm"
    and tail: "tail = [] \<or> hd tail = space"
  shows "parse st (prefix st @ nm @ tail) =
     (case scan st (prefix st @ nm @ tail @ [space])
             [Suc (length (prefix st) + length nm)..<Suc (length (prefix st) + length nm + length tail)]
             \<lparr>state = Default, bufferStartIndex = length (prefix st) + length nm,
              keyBuffer = [], longType = DoubleTick,
              command = \<lparr>parserSettings = st, name = nm, arguments = [], options = [],
                         parameters = [], source = prefix st @ nm @ tail,
                         passedChecks = validSettings st\<rparr>\<rparr> of
        Inl e \<Rightarrow> Inl e
      | Inr s \<Rightarrow> Inr (command s))"
proof -
  let ?src = "prefix st @ nm @ tail"
  let ?src' = "?src @ [space]"
  let ?s0 = "init_state st ?src (validSettings st)"
  let ?B = "length (prefix st) + length nm"
  let ?sD = "?s0\<lparr>state := Default, bufferStartIndex := ?B,
                 command := (command ?s0)\<lparr>name := nm\<rparr>\<rparr>"
  have "tail @ [space] = space # tl (tail @ [space])"
    using tail by (cases tail) auto
  then have eq: "?src' = prefix st @ nm @ space # tl (tail @ [space])" by simp
  have 1: "scan st ?src' [0..<Suc ?B] ?s0 = Inr ?sD"
    by (rule scan_name[OF eq nm]) (simp_all add: init_state_simps)
  have "scan st ?src' [0..<Suc (length ?src)] ?s0 =
      (case scan st ?src' [0..<Suc ?B] ?s0 of Inl e \<Rightarrow> Inl e
       | Inr t \<Rightarrow> scan st ?src' [Suc ?B..<Suc (length ?src)] t)"
    by (rule scan_upt_split) simp_all
  then have "scan st ?src' [0..<Suc (length ?src)] ?s0 =
      scan st ?src' [Suc ?B..<Suc (?B + length tail)] ?sD"
    by (simp only: 1 sum.case length_append add.assoc)
  moreover have "?sD = \<lparr>state = Default, bufferStartIndex = ?B,
              keyBuffer = [], longType = DoubleTick,
              command = \<lparr>parserSettings = st, name = nm, arguments = [], options = [],
                         parameters = [], source = ?src, passedChecks = validSettings st\<rparr>\<rparr>"
    by (simp add: init_state_def init_command_def)
  ultimately show ?thesis
    unfolding parse_gate_open[OF gate] by simp
qed

lemma step_OptionPrefix:
  assumes "state s = OptionPrefix" "bufferStartIndex s \<le> i"
  shows "step st src i s =
     (let k = i - bufferStartIndex s in
      if k < length (optionPrefix st) \<and> src ! i = optionPrefix st ! k then Inr s
      else if k < length (optionPrefix st) then Inr (s\<lparr>state := Argument\<rparr>)
      else if src ! i = space then Inl (ParseError i msg_empty_option)
      else Inr (s\<lparr>state := Option, bufferStartIndex := i\<rparr>))"
proof -
  have e: "int i - int (bufferStartIndex s) = int (i - bufferStartIndex s)"
    using assms(2) by simp
  show ?thesis
    unfolding step_def Let_def e using assms(1) by (simp add: js_index_nat)
qed

lemma step_Argument:
  assumes "state s = Argument"
  shows "step st src i s =
     (if src ! i = space then
        Inr (s\<lparr>state := Default, bufferStartIndex := i,
               command := (command s)\<lparr>arguments :=
                 arguments (command s) @ [substring src (bufferStartIndex s) i]\<rparr>\<rparr>)
      else Inr s)"
  using assms by (simp add: step_def Let_def)

lemma scan_chain:
  assumes "a \<le> b" "b \<le> c" "scan st src [a..<b] s = Inr t" "scan st src [b..<c] t = r"
  shows "scan st src [a..<c] s = r"
  using assms(3,4) by (simp add: scan_upt_split[OF assms(1,2)])

lemma scan_cons:
  assumes "a < c" "step st src a s = Inr t" "scan st src [Suc a..<c] t = r"
  shows "scan st src [a..<c] s = r"
  using assms(2,3) by (simp add: scan_upt_first[OF assms(1)])

lemma scan_snoc:
  assumes "a \<le> b" "scan st src [a..<b] s = Inr t" "step st src b t = r"
  shows "scan st src [a..<Suc b] s = r"
  using assms(2,3) by (simp add: scan_upt_last[OF assms(1)] del: upt_Suc)

lemma nth_mid: "n < length ys \<Longrightarrow> (xs @ ys @ zs) ! (length xs + n) = ys ! n"
  by (simp add: nth_append)

lemma nth_after: "(xs @ y # zs) ! length xs = y"
  by simp

lemma step_LongArgument:
  assumes "state s = LongArgument"
  shows "step st src i s =
     (if src ! i = quote_char (longType s) then
        Inr (s\<lparr>state := Default, bufferStartIndex := i,
               command := (command s)\<lparr>arguments :=
                 arguments (command s)
                   @ [unescape (longType s) (substring src (bufferStartIndex s) i)]\<rparr>\<rparr>)
      else if src ! i = bslash then Inr (s\<lparr>state := EscapeLongArgument\<rparr>)
      else Inr s)"
  using assms by (simp add: step_def Let_def)

lemma step_EscapeLongArgument:
  assumes "state s = EscapeLongArgument"
  shows "step st src i s =
     (if src ! i = bslash \<or> src ! i = quote_char (longType s)
      then Inr (s\<lparr>state := LongArgument\<rparr>)
      else Inl (ParseError i (msg_escape (src ! i))))"
  using assms by (simp add: step_def Let_def)

lemma step_LongParam:
  assumes "state s = LongParam"
  shows "step st src i s =
     (if src ! i = quote_char (longType s) then
        Inr (s\<lparr>state := Default, bufferStartIndex := i,
               command := (command s)\<lparr>parameters :=
                 map_set (keyBuffer s)
                   (unescape (longType s) (substring src (bufferStartIndex s) i))
                   (parameters (command s))\<rparr>\<rparr>)
      else if src ! i = bslash then Inr (s\<lparr>state := EscapeLongParam\<rparr>)
      else Inr s)"
  using assms by (simp add: step_def Let_def)

lemma step_EscapeLongParam:
  assumes "state s = EscapeLongParam"
  shows "step st src i s =
     (if src ! i = bslash \<or> src ! i = quote_char (longType s)
      then Inr (s\<lparr>state := LongParam\<rparr>)
      else Inl (ParseError i (msg_escape (src ! i))))"
  using assms by (simp add: step_def Let_def)

lemma step_Option:
  assumes "state s = Option"
  shows "step st src i s =
     (if src ! i = space then
        Inr (s\<lparr>state := Default, bufferStartIndex := i,
               command := (command s)\<lparr>options :=
                 set_add (substring src (bufferStartIndex s) i) (options (command s))\<rparr>\<rparr>)
      else if src ! i = colon then
        Inr (s\<lparr>state := ParamConnector, bufferStartIndex := i,
               keyBuffer := substring src (bufferStartIndex s) i\<rparr>)
      else Inr s)"
  using assms by (simp add: step_def Let_def)

lemma step_ParamConnector:
  assumes "state s = ParamConnector"
  shows "step st src i s =
     (if src ! i = space then Inl (ParseError i msg_empty_param)
      else if src ! i = dquote \<or> src ! i = squote then
        Inr (s\<lparr>state := LongParam, bufferStartIndex := i + 1,
               longType := long_type_of (src ! i)\<rparr>)
      else Inr (s\<lparr>state := Param, bufferStartIndex := i\<rparr>))"
  using assms by (simp add: step_def Let_def)

lemma step_Param:
  assumes "state s = Param"
  shows "step st src i s =
     (if src ! i = space then
        Inr (s\<lparr>state := Default, bufferStartIndex := i,
               command := (command s)\<lparr>parameters :=
                 map_set (keyBuffer s) (substring src (bufferStartIndex s) i)
                   (parameters (command s))\<rparr>\<rparr>)
      else Inr s)"
  using assms by (simp add: step_def Let_def)

section \<open>The prefix and the name\<close>

lemma parse_prefix_name_forced:
  assumes "validSettings st \<or> forceParse st = Some True"
  shows "parse st (prefix st @ ''name '') =
     Inr \<lparr>parserSettings = st, name = ''name'', arguments = [], options = [], parameters = [],
          source = prefix st @ ''name '', passedChecks = validSettings st\<rparr>"
proof -
  let ?src = "prefix st @ ''name ''"
  let ?src' = "?src @ [space]"
  let ?s0 = "init_state st ?src (validSettings st)"
  let ?B = "length (prefix st) + length ''name''"
  let ?sD = "?s0\<lparr>state := Default, bufferStartIndex := ?B,
                 command := (command ?s0)\<lparr>name := ''name''\<rparr>\<rparr>"
  have eq: "?src' = prefix st @ ''name'' @ space # [space]" by simp
  have 1: "scan st ?src' [0..<Suc ?B] ?s0 = Inr ?sD"
    by (rule scan_name[OF eq]) (simp_all add: init_state_simps)
  have "?src' ! Suc ?B = space" by (simp add: nth_append)
  then have 2: "step st ?src' (Suc ?B) ?sD = Inr ?sD"
    by (simp add: step_Default)
  have "Suc (length ?src) = Suc (Suc ?B)" by simp
  then have "scan st ?src' [0..<Suc (length ?src)] ?s0 =
      (case scan st ?src' [0..<Suc ?B] ?s0 of Inl e \<Rightarrow> Inl e | Inr t \<Rightarrow> step st ?src' (Suc ?B) t)"
    using scan_upt_last[of 0 "Suc ?B" st ?src' ?s0] by simp
  then have "scan st ?src' [0..<Suc (length ?src)] ?s0 = Inr ?sD"
    by (simp only: 1 2 sum.case)
  then show ?thesis
    unfolding parse_gate_open[OF assms]
    by (simp add: init_state_def init_command_def)
qed

text \<open>
  C9. For every configuration that passes \<open>validSettings\<close>, with prefix \<open>P\<close> and any option
  prefix, \<open>parse\<close> applied to \<open>P + "name "\<close> returns a Command whose name is \<open>name\<close> and whose
  arguments, options and parameters are empty.
\<close>

theorem parse_prefix_name:
  assumes "validSettings st"
  shows "parse st (prefix st @ ''name '') =
     Inr \<lparr>parserSettings = st, name = ''name'', arguments = [], options = [], parameters = [],
          source = prefix st @ ''name '', passedChecks = True\<rparr>"
  using parse_prefix_name_forced[of st] assms by simp

theorem parse_prefix_name_witness:
  "validSettings bang_dash
   \<and> parse bang_dash ''!name '' =
     Inr \<lparr>parserSettings = bang_dash, name = ''name'', arguments = [], options = [],
          parameters = [], source = ''!name '', passedChecks = True\<rparr>"
proof -
  have v: "validSettings bang_dash" by code_simp
  show ?thesis using v parse_prefix_name[OF v] by (simp add: bang_dash_def)
qed

text \<open>
  C10. The first token after the prefix is the command name, whatever it is made of: when the
  source is the prefix, a non-empty token \<open>nm\<close> without a space, and then nothing or a space and
  more text, the scan is in state Default after the space that ends \<open>nm\<close>, with \<open>nm\<close> as the name
  and no argument, option or parameter recorded, and every Command that \<open>parse\<close> returns has
  the name \<open>nm\<close>. Quotes and the option prefix inside \<open>nm\<close> are not interpreted.
\<close>

theorem first_token_is_name:
  assumes "validSettings st \<or> forceParse st = Some True"
    and "nm \<noteq> []" "space \<notin> set nm"
    and "tail = [] \<or> hd tail = space"
  shows "parse st (prefix st @ nm @ tail) =
     (case scan st (prefix st @ nm @ tail @ [space])
             [Suc (length (prefix st) + length nm)..<Suc (length (prefix st) + length nm + length tail)]
             \<lparr>state = Default, bufferStartIndex = length (prefix st) + length nm,
              keyBuffer = [], longType = DoubleTick,
              command = \<lparr>parserSettings = st, name = nm, arguments = [], options = [],
                         parameters = [], source = prefix st @ nm @ tail,
                         passedChecks = validSettings st\<rparr>\<rparr> of
        Inl e \<Rightarrow> Inl e
      | Inr s \<Rightarrow> Inr (command s))
   \<and> (\<forall>cmd. parse st (prefix st @ nm @ tail) = Inr cmd \<longrightarrow> name cmd = nm)"
proof -
  let ?sD = "\<lparr>state = Default, bufferStartIndex = length (prefix st) + length nm,
              keyBuffer = [], longType = DoubleTick,
              command = \<lparr>parserSettings = st, name = nm, arguments = [], options = [],
                         parameters = [], source = prefix st @ nm @ tail,
                         passedChecks = validSettings st\<rparr>\<rparr>"
  let ?is = "[Suc (length (prefix st) + length nm)..<Suc (length (prefix st) + length nm + length tail)]"
  have p: "parse st (prefix st @ nm @ tail) =
     (case scan st (prefix st @ nm @ tail @ [space]) ?is ?sD of
        Inl e \<Rightarrow> Inl e
      | Inr s \<Rightarrow> Inr (command s))"
    by (rule parse_after_name[OF assms])
  have "name cmd = nm" if "parse st (prefix st @ nm @ tail) = Inr cmd" for cmd
  proof -
    from that obtain s where s: "scan st (prefix st @ nm @ tail @ [space]) ?is ?sD = Inr s"
      and c: "cmd = command s"
      unfolding p by (auto split: sum.splits)
    have "named ?sD" by (simp add: named_def)
    from scan_named[OF this s] c show ?thesis by simp
  qed
  with p show ?thesis by blast
qed

theorem first_token_is_name_witness:
  "(\<exists>cmd. parse bang_dash ''!-opt arg'' = Inr cmd
       \<and> name cmd = ''-opt'' \<and> arguments cmd = [''arg''] \<and> options cmd = []
       \<and> parameters cmd = [])
   \<and> (\<exists>cmd. parse bang_dash ([CHR ''!'', dquote] @ ''a b'' @ [dquote] @ '' c'') = Inr cmd
       \<and> name cmd = [dquote, CHR ''a''] \<and> arguments cmd = [[CHR ''b'', dquote], ''c'']
       \<and> options cmd = [] \<and> parameters cmd = [])"
proof -
  have v: "validSettings bang_dash \<or> forceParse bang_dash = Some True" by code_simp
  have 1: "parse bang_dash ''!-opt arg'' =
      Inr \<lparr>parserSettings = bang_dash, name = ''-opt'', arguments = [''arg''], options = [],
           parameters = [], source = ''!-opt arg'', passedChecks = True\<rparr>"
    by code_simp
  have 2: "parse bang_dash ([CHR ''!'', dquote] @ ''a b'' @ [dquote] @ '' c'') =
      Inr \<lparr>parserSettings = bang_dash, name = [dquote, CHR ''a''],
           arguments = [[CHR ''b'', dquote], ''c''], options = [],
           parameters = [], source = [CHR ''!'', dquote] @ ''a b'' @ [dquote] @ '' c'',
           passedChecks = True\<rparr>"
    by code_simp
  have 3: "\<forall>cmd. parse bang_dash ''!-opt arg'' = Inr cmd \<longrightarrow> name cmd = ''-opt''"
    using first_token_is_name[OF v, of "''-opt''" "'' arg''"] by (simp add: bang_dash_def)
  have 4: "\<forall>cmd. parse bang_dash ([CHR ''!'', dquote] @ ''a b'' @ [dquote] @ '' c'') = Inr cmd
          \<longrightarrow> name cmd = [dquote, CHR ''a'']"
    using first_token_is_name[OF v, of "[dquote, CHR ''a'']" "'' b'' @ [dquote] @ '' c''"]
    by (simp add: bang_dash_def)
  from 1 obtain c1 where c1: "parse bang_dash ''!-opt arg'' = Inr c1"
    "arguments c1 = [''arg'']" "options c1 = []" "parameters c1 = []" by simp
  from 2 obtain c2 where c2:
    "parse bang_dash ([CHR ''!'', dquote] @ ''a b'' @ [dquote] @ '' c'') = Inr c2"
    "arguments c2 = [[CHR ''b'', dquote], ''c'']" "options c2 = []" "parameters c2 = []" by simp
  from 3 c1(1) have n1: "name c1 = ''-opt''" by blast
  from 4 c2(1) have n2: "name c2 = [dquote, CHR ''a'']" by blast
  show ?thesis using c1 n1 c2 n2 by blast
qed

text \<open>
  C4. Errors of the Prefix state. When the source agrees with the prefix on its first \<open>k\<close>
  characters, the prefix has more than \<open>k\<close> characters, and the next character of the source
  (or the sentinel) differs from the prefix there, \<open>parse\<close> raises the ParseError
  \<open>expected '<prefix[k]>'\<close> at index \<open>k\<close>; this holds also when that character is a space. The
  ParseError \<open>can't have space after prefix\<close> is raised when the source starts with the whole
  prefix and the next character is a space, at the index after the prefix.
\<close>

theorem prefix_state_errors:
  assumes "validSettings st \<or> forceParse st = Some True"
  shows "(k < length (prefix st) \<and> k \<le> length src \<and> take k src = take k (prefix st)
            \<and> (src @ [space]) ! k \<noteq> prefix st ! k
          \<longrightarrow> parse st src = Inl (ParseError k (msg_expected [prefix st ! k])))
       \<and> (length (prefix st) \<le> length src \<and> take (length (prefix st)) src = prefix st
            \<and> (src @ [space]) ! length (prefix st) = space
          \<longrightarrow> parse st src = Inl (ParseError (length (prefix st)) msg_space_after_prefix))"
proof (intro conjI impI; elim conjE)
  let ?s0 = "init_state st src (validSettings st)"
  have agree: "\<And>n m. n \<le> length src \<Longrightarrow> take n src = take n (prefix st) \<Longrightarrow> m < n
      \<Longrightarrow> (src @ [space]) ! m = prefix st ! m"
  proof -
    fix n m assume h: "n \<le> length src" "take n src = take n (prefix st)" "m < n"
    have a: "(src @ [space]) ! m = src ! m" using h(1,3) by (simp add: nth_append)
    have b: "take n src ! m = src ! m" using h(3) by simp
    have c: "take n (prefix st) ! m = prefix st ! m" using h(3) by simp
    show "(src @ [space]) ! m = prefix st ! m" using a b c h(2) by metis
  qed
  {
    assume k: "k < length (prefix st)" "k \<le> length src" "take k src = take k (prefix st)"
      and ne: "(src @ [space]) ! k \<noteq> prefix st ! k"
    have run: "scan st (src @ [space]) [0..<k] ?s0 = Inr ?s0"
      using k agree[of k] by (intro scan_prefix_run) (simp_all add: init_state_simps)
    have err: "step st (src @ [space]) k ?s0 = Inl (ParseError k (msg_expected [prefix st ! k]))"
      using k(1) ne by (simp add: step_Prefix init_state_simps)
    show "parse st src = Inl (ParseError k (msg_expected [prefix st ! k]))"
      by (rule parse_error_at[OF assms k(2) run err])
  }
  {
    let ?n = "length (prefix st)"
    assume n: "?n \<le> length src" "take ?n src = prefix st"
      and sp: "(src @ [space]) ! ?n = space"
    have run: "scan st (src @ [space]) [0..<?n] ?s0 = Inr ?s0"
      using n agree[of ?n] by (intro scan_prefix_run) (simp_all add: init_state_simps)
    have err: "step st (src @ [space]) ?n ?s0 = Inl (ParseError ?n msg_space_after_prefix)"
      using sp by (simp add: step_Prefix init_state_simps)
    show "parse st src = Inl (ParseError ?n msg_space_after_prefix)"
      by (rule parse_error_at[OF assms n(1) run err])
  }
qed

theorem prefix_state_errors_witness:
  "parse bang_dash ''#ping'' = Inl (ParseError 0 (msg_expected ''!''))
   \<and> parse bang_dash ''! ping'' = Inl (ParseError 1 msg_space_after_prefix)"
proof -
  have v: "validSettings bang_dash \<or> forceParse bang_dash = Some True" by code_simp
  have 1: "parse bang_dash ''#ping'' = Inl (ParseError 0 (msg_expected [prefix bang_dash ! 0]))"
    using prefix_state_errors[OF v, of 0 "''#ping''"] by (simp add: bang_dash_def)
  have 2: "parse bang_dash ''! ping'' = Inl (ParseError (length (prefix bang_dash)) msg_space_after_prefix)"
    using prefix_state_errors[OF v, of _ "''! ping''"] by (simp add: bang_dash_def)
  show ?thesis using 1 2 by (simp add: bang_dash_def)
qed

theorem prefix_space_counterexample:
  "parse \<lparr>prefix = ''ab'', optionPrefix = ''-'', checks = None, forceParse = None\<rparr> ''a b''
     = Inl (ParseError 1 (msg_expected ''b''))
   \<and> msg_expected ''b'' \<noteq> msg_space_after_prefix"
  by code_simp

section \<open>The end of the input\<close>

lemma parse_sentinel:
  assumes gate: "validSettings st \<or> forceParse st = Some True"
    and run: "scan st (src @ [space]) [0..<length src] (init_state st src (validSettings st)) = Inr s"
  shows "parse st src =
     (case step st (src @ [space]) (length src) s of
        Inl e \<Rightarrow> Inl e
      | Inr s' \<Rightarrow> Inr (command s'))"
  unfolding parse_gate_open[OF gate]
  by (simp add: scan_upt_last run del: upt_Suc)

lemma sentinel_char: "(src @ [space]) ! length src = space"
  by simp

lemma quote_char_not_space: "quote_char lt \<noteq> space" "space \<noteq> quote_char lt"
  by (cases lt; simp)+

lemma quote_char_not_bslash: "quote_char lt \<noteq> bslash" "bslash \<noteq> quote_char lt"
  by (cases lt; simp)+

lemma step_not_Prefix:
  "state s \<noteq> Prefix \<Longrightarrow> step st src i s = Inr s' \<Longrightarrow> state s' \<noteq> Prefix"
  by (cases "state s") (auto simp: step_def Let_def split: if_splits)

lemma step_Prefix_stays:
  "state s = Prefix \<Longrightarrow> step st src i s = Inr s' \<Longrightarrow> state s' = Prefix \<Longrightarrow> s' = s"
  by (auto simp: step_def Let_def split: if_splits)

lemma scan_not_Prefix:
  "state s \<noteq> Prefix \<Longrightarrow> scan st src is s = Inr s' \<Longrightarrow> state s' \<noteq> Prefix"
proof (induction "is" arbitrary: s)
  case Nil
  then show ?case by simp
next
  case (Cons i "is")
  from Cons.prems(2) obtain t where t: "step st src i s = Inr t" "scan st src is t = Inr s'"
    by (auto split: sum.splits)
  from Cons.IH[OF step_not_Prefix[OF Cons.prems(1) t(1)] t(2)] show ?case .
qed

lemma scan_Prefix_stays:
  "state s = Prefix \<Longrightarrow> scan st src is s = Inr s' \<Longrightarrow> state s' = Prefix \<Longrightarrow> s' = s"
proof (induction "is" arbitrary: s)
  case Nil
  then show ?case by simp
next
  case (Cons i "is")
  from Cons.prems(2) obtain t where t: "step st src i s = Inr t" "scan st src is t = Inr s'"
    by (auto split: sum.splits)
  have "state t = Prefix" using scan_not_Prefix[OF _ t(2)] Cons.prems(3) by blast
  with Cons.prems(1) t(1) have "t = s" by (rule step_Prefix_stays)
  moreover have "s' = t" using Cons.IH[OF \<open>state t = Prefix\<close> t(2) Cons.prems(3)] .
  ultimately show ?case by simp
qed

text \<open>
  C1. What the sentinel space does, by the state \<open>s\<close> the scan is in when the source is
  exhausted. In Name, Option, Param and Argument the open token is closed and recorded. In
  LongArgument and LongParam the open token is dropped and the Command built so far is
  returned. In EscapeLongArgument, EscapeLongParam and ParamConnector the sentinel raises a
  ParseError at the index \<open>length src\<close>. In OptionPrefix it raises a ParseError when the option
  prefix has been matched completely, and otherwise the token is dropped. In Prefix it raises
  \<open>expected '<char>'\<close> when the prefix is not matched completely and its next character is not a
  space, and \<open>can't have space after prefix\<close> when the prefix is matched completely.
\<close>

theorem end_of_input_flush:
  assumes "validSettings st \<or> forceParse st = Some True"
    and "scan st (src @ [space]) [0..<length src] (init_state st src (validSettings st)) = Inr s"
  shows "(state s = Name \<longrightarrow>
            parse st src = Inr ((command s)\<lparr>name :=
              substring (src @ [space]) (bufferStartIndex s) (length src)\<rparr>))
       \<and> (state s = Option \<longrightarrow>
            parse st src = Inr ((command s)\<lparr>options :=
              set_add (substring (src @ [space]) (bufferStartIndex s) (length src))
                (options (command s))\<rparr>))
       \<and> (state s = Param \<longrightarrow>
            parse st src = Inr ((command s)\<lparr>parameters :=
              map_set (keyBuffer s) (substring (src @ [space]) (bufferStartIndex s) (length src))
                (parameters (command s))\<rparr>))
       \<and> (state s = Argument \<longrightarrow>
            parse st src = Inr ((command s)\<lparr>arguments :=
              arguments (command s)
                @ [substring (src @ [space]) (bufferStartIndex s) (length src)]\<rparr>))
       \<and> (state s = LongArgument \<or> state s = LongParam \<longrightarrow>
            parse st src = Inr (command s))
       \<and> (state s = EscapeLongArgument \<or> state s = EscapeLongParam \<longrightarrow>
            parse st src = Inl (ParseError (length src) (msg_escape space)))
       \<and> (state s = ParamConnector \<longrightarrow>
            parse st src = Inl (ParseError (length src) msg_empty_param))
       \<and> (state s = OptionPrefix \<longrightarrow>
            parse st src =
              (if Some space = js_index (optionPrefix st)
                                 (int (length src) - int (bufferStartIndex s))
                  \<or> int (length src) - int (bufferStartIndex s) < int (length (optionPrefix st))
               then Inr (command s)
               else Inl (ParseError (length src) msg_empty_option)))
       \<and> (state s = Prefix \<and> length src < length (prefix st)
            \<and> prefix st ! length src \<noteq> space \<longrightarrow>
            parse st src = Inl (ParseError (length src) (msg_expected [prefix st ! length src])))
       \<and> (state s = Prefix \<and> length (prefix st) \<le> length src \<longrightarrow>
            parse st src = Inl (ParseError (length src) msg_space_after_prefix))"
proof -
  note p = parse_sentinel[OF assms]
  have pre: "s = init_state st src (validSettings st)" if "state s = Prefix"
  proof -
    have "state (init_state st src (validSettings st)) = Prefix" by (simp add: init_state_def)
    from scan_Prefix_stays[OF this assms(2) that] show ?thesis .
  qed
  have 1: "state s = Name \<longrightarrow>
            parse st src = Inr ((command s)\<lparr>name :=
              substring (src @ [space]) (bufferStartIndex s) (length src)\<rparr>)"
    unfolding p by (simp add: step_Name)
  have 2: "state s = Option \<longrightarrow>
            parse st src = Inr ((command s)\<lparr>options :=
              set_add (substring (src @ [space]) (bufferStartIndex s) (length src))
                (options (command s))\<rparr>)"
    unfolding p by (simp add: step_Option)
  have 3: "state s = Param \<longrightarrow>
            parse st src = Inr ((command s)\<lparr>parameters :=
              map_set (keyBuffer s) (substring (src @ [space]) (bufferStartIndex s) (length src))
                (parameters (command s))\<rparr>)"
    unfolding p by (simp add: step_Param)
  have 4: "state s = Argument \<longrightarrow>
            parse st src = Inr ((command s)\<lparr>arguments :=
              arguments (command s)
                @ [substring (src @ [space]) (bufferStartIndex s) (length src)]\<rparr>)"
    unfolding p by (simp add: step_Argument)
  have 5: "state s = LongArgument \<or> state s = LongParam \<longrightarrow>
            parse st src = Inr (command s)"
    unfolding p by (auto simp: step_LongArgument step_LongParam quote_char_not_space)
  have 6: "state s = EscapeLongArgument \<or> state s = EscapeLongParam \<longrightarrow>
            parse st src = Inl (ParseError (length src) (msg_escape space))"
    unfolding p
    by (auto simp: step_EscapeLongArgument step_EscapeLongParam quote_char_not_space)
  have 7: "state s = ParamConnector \<longrightarrow>
            parse st src = Inl (ParseError (length src) msg_empty_param)"
    unfolding p by (simp add: step_ParamConnector)
  have 8: "state s = OptionPrefix \<longrightarrow>
            parse st src =
              (if Some space = js_index (optionPrefix st)
                                 (int (length src) - int (bufferStartIndex s))
                  \<or> int (length src) - int (bufferStartIndex s) < int (length (optionPrefix st))
               then Inr (command s)
               else Inl (ParseError (length src) msg_empty_option))"
    unfolding p by (simp add: step_def Let_def)
  have 9: "state s = Prefix \<and> length src < length (prefix st)
            \<and> prefix st ! length src \<noteq> space \<longrightarrow>
            parse st src = Inl (ParseError (length src) (msg_expected [prefix st ! length src]))"
    unfolding p using pre by (auto simp: step_Prefix init_state_simps)
  have 10: "state s = Prefix \<and> length (prefix st) \<le> length src \<longrightarrow>
            parse st src = Inl (ParseError (length src) msg_space_after_prefix)"
    unfolding p using pre by (auto simp: step_Prefix init_state_simps)
  show ?thesis using 1 2 3 4 5 6 7 8 9 10 by (intro conjI)
qed

theorem end_of_input_flush_witness:
  "parse bang_dash ''!x y'' =
     Inr \<lparr>parserSettings = bang_dash, name = ''x'', arguments = [''y''], options = [],
          parameters = [], source = ''!x y'', passedChecks = True\<rparr>
   \<and> parse bang_dash ''!x -k:v'' =
     Inr \<lparr>parserSettings = bang_dash, name = ''x'', arguments = [], options = [],
          parameters = [(''k'', ''v'')], source = ''!x -k:v'', passedChecks = True\<rparr>
   \<and> parse bang_dash ''!x -k:'' = Inl (ParseError 6 msg_empty_param)"
proof -
  have v: "validSettings bang_dash \<or> forceParse bang_dash = Some True" by code_simp
  have r1: "scan bang_dash (''!x y'' @ [space]) [0..<length ''!x y'']
              (init_state bang_dash ''!x y'' (validSettings bang_dash)) =
            Inr \<lparr>state = Argument, bufferStartIndex = 3, keyBuffer = [], longType = DoubleTick,
                 command = \<lparr>parserSettings = bang_dash, name = ''x'', arguments = [],
                   options = [], parameters = [], source = ''!x y'', passedChecks = True\<rparr>\<rparr>"
    by code_simp
  have r2: "scan bang_dash (''!x -k:v'' @ [space]) [0..<length ''!x -k:v'']
              (init_state bang_dash ''!x -k:v'' (validSettings bang_dash)) =
            Inr \<lparr>state = Param, bufferStartIndex = 6, keyBuffer = ''k'', longType = DoubleTick,
                 command = \<lparr>parserSettings = bang_dash, name = ''x'', arguments = [],
                   options = [], parameters = [], source = ''!x -k:v'', passedChecks = True\<rparr>\<rparr>"
    by code_simp
  have r3: "scan bang_dash (''!x -k:'' @ [space]) [0..<length ''!x -k:'']
              (init_state bang_dash ''!x -k:'' (validSettings bang_dash)) =
            Inr \<lparr>state = ParamConnector, bufferStartIndex = 5, keyBuffer = ''k'',
                 longType = DoubleTick,
                 command = \<lparr>parserSettings = bang_dash, name = ''x'', arguments = [],
                   options = [], parameters = [], source = ''!x -k:'', passedChecks = True\<rparr>\<rparr>"
    by code_simp
  show ?thesis
    using end_of_input_flush[OF v r1] end_of_input_flush[OF v r2] end_of_input_flush[OF v r3]
    by (simp add: substring_def)
qed

theorem end_of_input_counterexample:
  "scan bang_dash (''!x -k:'' @ [space]) [0..<length ''!x -k:'']
      (init_state bang_dash ''!x -k:'' (validSettings bang_dash)) =
     Inr \<lparr>state = ParamConnector, bufferStartIndex = 5, keyBuffer = ''k'',
          longType = DoubleTick,
          command = \<lparr>parserSettings = bang_dash, name = ''x'', arguments = [],
            options = [], parameters = [], source = ''!x -k:'', passedChecks = True\<rparr>\<rparr>
   \<and> parse bang_dash ''!x -k:'' = Inl (ParseError 6 msg_empty_param)"
  by code_simp

text \<open>
  C7. A quoted token that is still open when the source is exhausted: when the scan is then in
  LongArgument or LongParam, \<open>parse\<close> raises no error and returns the Command built from the
  tokens completed before; when the source ends right after an escaping backslash, so that the
  scan is in EscapeLongArgument or EscapeLongParam, the sentinel is not a character that can be
  escaped and \<open>parse\<close> raises the ParseError \<open>couldn't escape with character ' '\<close> at the index
  \<open>length src\<close>.
\<close>

theorem unterminated_long_token:
  assumes "validSettings st \<or> forceParse st = Some True"
    and "scan st (src @ [space]) [0..<length src] (init_state st src (validSettings st)) = Inr s"
  shows "(state s = LongArgument \<or> state s = LongParam \<longrightarrow> parse st src = Inr (command s))
       \<and> (state s = EscapeLongArgument \<or> state s = EscapeLongParam
            \<longrightarrow> parse st src = Inl (ParseError (length src) (msg_escape space)))"
  unfolding parse_sentinel[OF assms]
  by (auto simp: step_def Let_def quote_char_not_space)

theorem unterminated_long_token_witness:
  "parse bang_dash (''!x y '' @ [dquote] @ ''abc'') =
     Inr \<lparr>parserSettings = bang_dash, name = ''x'', arguments = [''y''], options = [],
          parameters = [], source = ''!x y '' @ [dquote] @ ''abc'', passedChecks = True\<rparr>
  \<and> parse bang_dash (''!x y '' @ [dquote] @ ''abc'' @ [bslash]) =
     Inl (ParseError 10 (msg_escape space))"
proof -
  have v: "validSettings bang_dash \<or> forceParse bang_dash = Some True" by code_simp
  have r1: "scan bang_dash ((''!x y '' @ [dquote] @ ''abc'') @ [space])
              [0..<length (''!x y '' @ [dquote] @ ''abc'')]
              (init_state bang_dash (''!x y '' @ [dquote] @ ''abc'') (validSettings bang_dash)) =
            Inr \<lparr>state = LongArgument, bufferStartIndex = 6, keyBuffer = [],
                 longType = DoubleTick,
                 command = \<lparr>parserSettings = bang_dash, name = ''x'', arguments = [''y''],
                   options = [], parameters = [], source = ''!x y '' @ [dquote] @ ''abc'',
                   passedChecks = True\<rparr>\<rparr>"
    by code_simp
  have r2: "scan bang_dash ((''!x y '' @ [dquote] @ ''abc'' @ [bslash]) @ [space])
              [0..<length (''!x y '' @ [dquote] @ ''abc'' @ [bslash])]
              (init_state bang_dash (''!x y '' @ [dquote] @ ''abc'' @ [bslash])
                 (validSettings bang_dash)) =
            Inr \<lparr>state = EscapeLongArgument, bufferStartIndex = 6, keyBuffer = [],
                 longType = DoubleTick,
                 command = \<lparr>parserSettings = bang_dash, name = ''x'', arguments = [''y''],
                   options = [], parameters = [],
                   source = ''!x y '' @ [dquote] @ ''abc'' @ [bslash],
                   passedChecks = True\<rparr>\<rparr>"
    by code_simp
  show ?thesis
    using unterminated_long_token[OF v r1] unterminated_long_token[OF v r2]
    by simp
qed

theorem unterminated_escape_counterexample:
  "scan bang_dash ((''!x '' @ [dquote] @ ''abc'' @ [bslash]) @ [space])
      [0..<length (''!x '' @ [dquote] @ ''abc'' @ [bslash])]
      (init_state bang_dash (''!x '' @ [dquote] @ ''abc'' @ [bslash]) (validSettings bang_dash)) =
     Inr \<lparr>state = EscapeLongArgument, bufferStartIndex = 4, keyBuffer = [],
          longType = DoubleTick,
          command = \<lparr>parserSettings = bang_dash, name = ''x'', arguments = [],
            options = [], parameters = [], source = ''!x '' @ [dquote] @ ''abc'' @ [bslash],
            passedChecks = True\<rparr>\<rparr>
   \<and> parse bang_dash (''!x '' @ [dquote] @ ''abc'' @ [bslash]) =
       Inl (ParseError 8 (msg_escape space))"
  by code_simp

section \<open>The option prefix that does not complete\<close>

text \<open>
  The fallback of the OptionPrefix case in general. From the Default state, when the source
  continues with the first \<open>k\<close> characters of the option prefix (\<open>0 < k\<close>, and the option prefix
  is longer than \<open>k\<close>) and then a character \<open>c\<close> that is not the next character of the option
  prefix, the step at \<open>c\<close> puts the scan in state Argument with the start of the token unchanged,
  and the space that ends the following run \<open>mid\<close> of non-space characters pushes the argument
  made of the \<open>k\<close> characters of the option prefix, \<open>c\<close> and \<open>mid\<close>. Nothing is assumed of \<open>c\<close>
  beyond the mismatch: a space is absorbed like any other character.
\<close>

lemma option_prefix_fallback:
  assumes s: "state s = Default"
    and O: "optionPrefix st ! 0 \<noteq> space"
    and k: "0 < k" "k < length (optionPrefix st)"
    and c: "c \<noteq> optionPrefix st ! k"
    and mid: "space \<notin> set mid"
    and src: "src = pre @ take k (optionPrefix st) @ c # mid @ space # post"
  shows "scan st src [length pre..<Suc (length pre + k)] s =
           Inr (s\<lparr>state := Argument, bufferStartIndex := length pre\<rparr>)
       \<and> scan st src [length pre..<Suc (length pre + k + 1 + length mid)] s =
           Inr (s\<lparr>state := Default, bufferStartIndex := length pre + k + 1 + length mid,
                  command := (command s)\<lparr>arguments :=
                    arguments (command s) @ [take k (optionPrefix st) @ c # mid]\<rparr>\<rparr>)"
proof -
  let ?O = "optionPrefix st"
  let ?a = "length pre"
  let ?i = "?a + k"
  let ?j = "?i + 1 + length mid"
  let ?s1 = "s\<lparr>state := OptionPrefix, bufferStartIndex := ?a\<rparr>"
  let ?s2 = "s\<lparr>state := Argument, bufferStartIndex := ?a\<rparr>"
  let ?s3 = "s\<lparr>state := Default, bufferStartIndex := ?j,
                command := (command s)\<lparr>arguments :=
                  arguments (command s) @ [take k ?O @ c # mid]\<rparr>\<rparr>"
  have lenk: "length (take k ?O) = k" using k by simp
  have src1: "src = pre @ take k ?O @ (c # mid @ space # post)" by (simp add: src)
  have src2: "src = (pre @ take k ?O) @ c # (mid @ space # post)" by (simp add: src)
  have src3: "src = (pre @ take k ?O @ [c]) @ mid @ (space # post)" by (simp add: src)
  have src4: "src = (pre @ take k ?O @ c # mid) @ space # post" by (simp add: src)
  have src5: "src = pre @ (take k ?O @ c # mid) @ (space # post)" by (simp add: src)
  have at_O: "src ! (?a + m) = ?O ! m" if "m < k" for m
  proof -
    have "src ! (?a + m) = take k ?O ! m"
      using that lenk by (subst src1) (simp only: nth_mid)
    then show ?thesis using that by simp
  qed
  have ei: "length (pre @ take k ?O) = ?i" using lenk by simp
  have at_c: "src ! ?i = c"
    unfolding ei[symmetric] by (subst src2) (rule nth_after)
  have at_mid: "src ! m \<noteq> space" if "?i < m" "m < ?j" for m
  proof -
    have n: "m - Suc ?i < length mid" "m = length (pre @ take k ?O @ [c]) + (m - Suc ?i)"
      using that lenk by simp_all
    have "src ! (length (pre @ take k ?O @ [c]) + (m - Suc ?i)) = mid ! (m - Suc ?i)"
      using n(1) by (subst src3) (simp only: nth_mid)
    then have "src ! m = mid ! (m - Suc ?i)" using n(2) by simp
    then show ?thesis using mid n(1) by (metis nth_mem)
  qed
  have ej: "length (pre @ take k ?O @ c # mid) = ?j" using lenk by simp
  have at_j: "src ! ?j = space"
    unfolding ej[symmetric] by (subst src4) (rule nth_after)
  have ej': "?a + length (take k ?O @ c # mid) = ?j" using lenk by simp
  have sub: "substring src ?a ?j = take k ?O @ c # mid"
    unfolding ej'[symmetric] by (subst src5) (rule substring_mid)
  have "src ! ?a = ?O ! 0" using at_O[of 0] k by simp
  moreover have "?O \<noteq> []" using k by auto
  ultimately have r1: "step st src ?a s = Inr ?s1"
    using s O by (simp add: step_Default js_index_def)
  have r2: "scan st src [Suc ?a..<?i] ?s1 = Inr ?s1"
  proof (rule scan_run_id)
    fix m assume m: "Suc ?a \<le> m" "m < ?i"
    then have "src ! m = ?O ! (m - ?a)" "m - ?a < length ?O"
      using at_O[of "m - ?a"] k by simp_all
    then show "step st src m ?s1 = Inr ?s1"
      using m by (simp add: step_OptionPrefix)
  qed
  have r3: "step st src ?i ?s1 = Inr ?s2"
    using at_c c k by (simp add: step_OptionPrefix)
  have r4: "scan st src [Suc ?i..<?j] ?s2 = Inr ?s2"
    using at_mid by (intro scan_run_id) (simp add: step_Argument)
  have r5: "step st src ?j ?s2 = Inr ?s3"
    using at_j sub by (simp add: step_Argument)
  have A0: "scan st src [?a..<?i] s = Inr ?s1"
    using k(1) by (intro scan_cons[OF _ r1 r2]) simp
  have A: "scan st src [?a..<Suc ?i] s = Inr ?s2"
    by (rule scan_snoc[OF _ A0 r3]) simp
  have B0: "scan st src [?a..<?j] s = Inr ?s2"
    by (rule scan_chain[OF _ _ A r4]) simp_all
  have B: "scan st src [?a..<Suc ?j] s = Inr ?s3"
    by (rule scan_snoc[OF _ B0 r5]) simp
  from A B show ?thesis by (rule conjI)
qed

lemma option_prefix_fallback_example:
  "scan bang_ddash ''!x -y z '' [length ''!x ''..<Suc (length ''!x '' + 1)]
     \<lparr>state = Default, bufferStartIndex = 2, keyBuffer = [], longType = DoubleTick,
      command = \<lparr>parserSettings = bang_ddash, name = ''x'', arguments = [], options = [],
        parameters = [], source = ''!x -y z'', passedChecks = True\<rparr>\<rparr> =
   Inr \<lparr>state = Argument, bufferStartIndex = length ''!x '', keyBuffer = [],
      longType = DoubleTick,
      command = \<lparr>parserSettings = bang_ddash, name = ''x'', arguments = [], options = [],
        parameters = [], source = ''!x -y z'', passedChecks = True\<rparr>\<rparr>
   \<and> scan bang_ddash ''!x -y z '' [length ''!x ''..<Suc (length ''!x '' + 1 + 1 + 0)]
     \<lparr>state = Default, bufferStartIndex = 2, keyBuffer = [], longType = DoubleTick,
      command = \<lparr>parserSettings = bang_ddash, name = ''x'', arguments = [], options = [],
        parameters = [], source = ''!x -y z'', passedChecks = True\<rparr>\<rparr> =
   Inr \<lparr>state = Default, bufferStartIndex = length ''!x '' + 1 + 1 + 0,
      keyBuffer = [], longType = DoubleTick,
      command = \<lparr>parserSettings = bang_ddash, name = ''x'', arguments = [''-y''], options = [],
        parameters = [], source = ''!x -y z'', passedChecks = True\<rparr>\<rparr>
   \<and> parse bang_ddash ''!x -y z'' =
   Inr \<lparr>parserSettings = bang_ddash, name = ''x'', arguments = [''-y'', ''z''], options = [],
        parameters = [], source = ''!x -y z'', passedChecks = True\<rparr>"
proof -
  let ?s = "\<lparr>state = Default, bufferStartIndex = 2, keyBuffer = [], longType = DoubleTick,
      command = \<lparr>parserSettings = bang_ddash, name = ''x'', arguments = [], options = [],
        parameters = [], source = ''!x -y z'', passedChecks = True\<rparr>\<rparr>"
  have p: "parse bang_ddash ''!x -y z'' =
   Inr \<lparr>parserSettings = bang_ddash, name = ''x'', arguments = [''-y'', ''z''], options = [],
        parameters = [], source = ''!x -y z'', passedChecks = True\<rparr>"
    by code_simp
  have src: "''!x -y z '' =
      ''!x '' @ take 1 (optionPrefix bang_ddash) @ CHR ''y'' # [] @ space # ''z ''"
    by (simp add: bang_ddash_def)
  have tk: "take 1 (optionPrefix bang_ddash) @ CHR ''y'' # [] = ''-y''"
    by (simp add: bang_ddash_def)
  have len: "length ([]::string) = 0" by simp
  have "scan bang_ddash ''!x -y z '' [length ''!x ''..<Suc (length ''!x '' + 1)] ?s =
           Inr (?s\<lparr>state := Argument, bufferStartIndex := length ''!x ''\<rparr>)
       \<and> scan bang_ddash ''!x -y z ''
            [length ''!x ''..<Suc (length ''!x '' + 1 + 1 + length ([]::string))] ?s =
           Inr (?s\<lparr>state := Default,
                  bufferStartIndex := length ''!x '' + 1 + 1 + length ([]::string),
                  command := (command ?s)\<lparr>arguments :=
                    arguments (command ?s)
                      @ [take 1 (optionPrefix bang_ddash) @ CHR ''y'' # []]\<rparr>\<rparr>)"
    by (rule option_prefix_fallback[OF _ _ _ _ _ _ src]) (simp_all add: bang_ddash_def)
  then show ?thesis unfolding tk len using p by simp
qed

text \<open>
  C8. When a character mismatches the option prefix before it is fully consumed, the
  OptionPrefix case sets the state to Argument and keeps the start of the token, but it also
  consumes the mismatching character: the Argument case first sees the character after it.
  With the option prefix \<open>--\<close>, which passes the twitch policy, the source \<open>!x - y\<close> has the
  mismatch at the space at index 4. The scan is in state Argument after that space, and
  \<open>parse\<close> returns the single argument \<open>- y\<close>, whereas the Argument case applied at index 4
  closes the token and pushes \<open>-\<close>. When the mismatching character is the sentinel, as in
  \<open>!x -\<close>, no argument is pushed at all.
\<close>

theorem option_prefix_fallback_absorbs_space:
  "validSettings bang_ddash
   \<and> scan bang_ddash ''!x - y '' [0..<5] (init_state bang_ddash ''!x - y'' True) =
     Inr \<lparr>state = Argument, bufferStartIndex = 3, keyBuffer = [], longType = DoubleTick,
          command = \<lparr>parserSettings = bang_ddash, name = ''x'', arguments = [], options = [],
            parameters = [], source = ''!x - y'', passedChecks = True\<rparr>\<rparr>
   \<and> parse bang_ddash ''!x - y'' =
     Inr \<lparr>parserSettings = bang_ddash, name = ''x'', arguments = [''- y''], options = [],
          parameters = [], source = ''!x - y'', passedChecks = True\<rparr>
   \<and> step bang_ddash ''!x - y '' 4
       \<lparr>state = Argument, bufferStartIndex = 3, keyBuffer = [], longType = DoubleTick,
        command = \<lparr>parserSettings = bang_ddash, name = ''x'', arguments = [], options = [],
          parameters = [], source = ''!x - y'', passedChecks = True\<rparr>\<rparr> =
     Inr \<lparr>state = Default, bufferStartIndex = 4, keyBuffer = [], longType = DoubleTick,
          command = \<lparr>parserSettings = bang_ddash, name = ''x'', arguments = [''-''],
            options = [], parameters = [], source = ''!x - y'', passedChecks = True\<rparr>\<rparr>
   \<and> parse bang_ddash ''!x -'' =
     Inr \<lparr>parserSettings = bang_ddash, name = ''x'', arguments = [], options = [],
          parameters = [], source = ''!x -'', passedChecks = True\<rparr>"
  by code_simp

section \<open>Quoted tokens\<close>

lemma replace_all2_skip:
  "x \<noteq> a \<Longrightarrow> replace_all2 a b rep (x # w) = x # replace_all2 a b rep w"
  by (cases w) simp_all

lemma replace_all2_keep:
  assumes "w = [] \<or> hd w \<noteq> b"
  shows "replace_all2 a b rep (x # w) = x # replace_all2 a b rep w"
  using assms by (cases w) auto

lemma escaped_ok_hd: "escaped_ok q cs \<Longrightarrow> q \<noteq> bslash \<Longrightarrow> cs = [] \<or> hd cs \<noteq> q"
  by (induction q cs rule: escaped_ok.induct) (auto split: if_splits)

lemma unescape_decode:
  assumes "escaped_ok (quote_char lt) body"
  shows "unescape lt body = decode body"
  using assms
proof (induction "quote_char lt" body rule: escaped_ok.induct)
  case 1
  show ?case by (simp add: unescape_def)
next
  case (2 c)
  then show ?case by (simp add: unescape_def)
next
  case (3 c d cs)
  let ?q = "quote_char lt"
  let ?p1 = "replace_all2 bslash ?q [?q]"
  let ?p2 = "replace_all2 bslash bslash [bslash]"
  show ?case
  proof (cases "c = bslash")
    case True
    with 3 have d: "d = bslash \<or> d = ?q" and ok: "escaped_ok ?q cs" by auto
    have IH: "?p2 (?p1 cs) = decode cs"
      using "3.hyps"(1)[OF True ok] by (simp add: unescape_def)
    show ?thesis
    proof (cases "d = ?q")
      case q: True
      have "?p1 (c # d # cs) = ?q # ?p1 cs" using True q by simp
      moreover have "?p2 (?q # ?p1 cs) = ?q # ?p2 (?p1 cs)"
        by (rule replace_all2_skip) (rule quote_char_not_bslash)
      ultimately show ?thesis using True q IH by (simp add: unescape_def)
    next
      case False
      with d have b: "d = bslash" by simp
      have "?p1 (bslash # cs) = bslash # ?p1 cs"
        by (rule replace_all2_keep) (rule escaped_ok_hd[OF ok quote_char_not_bslash(1)])
      then have "?p1 (c # d # cs) = bslash # bslash # ?p1 cs"
        using True b False by simp
      then show ?thesis using True b IH by (simp add: unescape_def)
    qed
  next
    case False
    with 3 have cq: "c \<noteq> ?q" and ok: "escaped_ok ?q (d # cs)" by auto
    have IH: "?p2 (?p1 (d # cs)) = decode (d # cs)"
      using "3.hyps"(2)[OF False ok] by (simp add: unescape_def)
    have "?p1 (c # d # cs) = c # ?p1 (d # cs)" using False by simp
    moreover have "?p2 (c # ?p1 (d # cs)) = c # ?p2 (?p1 (d # cs))"
      using False by (rule replace_all2_skip)
    ultimately show ?thesis using False IH by (simp add: unescape_def)
  qed
qed

lemma escaped_ok_append:
  "escaped_ok q xs \<Longrightarrow> escaped_ok q ys \<Longrightarrow> escaped_ok q (xs @ ys)"
proof (induction q xs rule: escaped_ok.induct)
  case (1 q)
  then show ?case by simp
next
  case (2 q c)
  then show ?case by (cases ys) auto
next
  case (3 q c d cs)
  then show ?case by (auto split: if_splits)
qed

lemma decode_append:
  "escaped_ok q xs \<Longrightarrow> decode (xs @ ys) = decode xs @ decode ys"
proof (induction q xs rule: escaped_ok.induct)
  case (1 q)
  then show ?case by simp
next
  case (2 q c)
  then show ?case by (cases ys) auto
next
  case (3 q c d cs)
  then show ?case by (auto split: if_splits)
qed

lemma unescape_backslash_pair:
  assumes "escaped_ok (quote_char lt) xs" "escaped_ok (quote_char lt) ys"
  shows "unescape lt (xs @ [bslash, bslash] @ ys) = unescape lt xs @ [bslash] @ unescape lt ys"
proof -
  have 1: "escaped_ok (quote_char lt) ([bslash, bslash] @ ys)" using assms(2) by simp
  have 2: "escaped_ok (quote_char lt) (xs @ [bslash, bslash] @ ys)"
    by (rule escaped_ok_append[OF assms(1) 1])
  have "decode (xs @ [bslash, bslash] @ ys) = decode xs @ decode ([bslash, bslash] @ ys)"
    by (rule decode_append[OF assms(1)])
  then have "decode (xs @ [bslash, bslash] @ ys) = decode xs @ [bslash] @ decode ys"
    by simp
  then show ?thesis
    unfolding unescape_decode[OF 2] unescape_decode[OF assms(1)] unescape_decode[OF assms(2)] .
qed

lemma unescape_quote_pair:
  assumes "escaped_ok (quote_char lt) xs" "escaped_ok (quote_char lt) ys"
  shows "unescape lt (xs @ [bslash, quote_char lt] @ ys)
           = unescape lt xs @ [quote_char lt] @ unescape lt ys"
proof -
  have 1: "escaped_ok (quote_char lt) ([bslash, quote_char lt] @ ys)" using assms(2) by simp
  have 2: "escaped_ok (quote_char lt) (xs @ [bslash, quote_char lt] @ ys)"
    by (rule escaped_ok_append[OF assms(1) 1])
  have "decode (xs @ [bslash, quote_char lt] @ ys)
          = decode xs @ decode ([bslash, quote_char lt] @ ys)"
    by (rule decode_append[OF assms(1)])
  then have "decode (xs @ [bslash, quote_char lt] @ ys) = decode xs @ [quote_char lt] @ decode ys"
    by simp
  then show ?thesis
    unfolding unescape_decode[OF 2] unescape_decode[OF assms(1)] unescape_decode[OF assms(2)] .
qed

lemma long_type_of_quote_char: "long_type_of (quote_char lt) = lt"
  by (cases lt) (simp_all add: long_type_of_def)

lemma quote_char_cases: "quote_char lt = dquote \<or> quote_char lt = squote"
  by (cases lt) simp_all

text \<open>The body of a quoted token leaves the scan in the Long state it started in.\<close>

lemma scan_LongArgument_body:
  assumes "escaped_ok q body" "q = quote_char (longType s)" "state s = LongArgument"
    and "src = pre @ body @ post"
  shows "scan st src [length pre..<length pre + length body] s = Inr s"
  using assms
proof (induction q body arbitrary: pre rule: escaped_ok.induct)
  case (1 q)
  show ?case by simp
next
  case (2 q c)
  have "src ! length pre = c" by (simp add: "2.prems"(4))
  then have "step st src (length pre) s = Inr s"
    using "2.prems" by (simp add: step_LongArgument)
  then show ?case by simp
next
  case (3 q c d cs)
  have c: "src ! length pre = c" by (simp add: "3.prems"(4))
  have "src = (pre @ [c]) @ d # cs @ post" by (simp add: "3.prems"(4))
  then have "src ! length (pre @ [c]) = d" by (metis nth_after)
  then have d: "src ! Suc (length pre) = d" by simp
  show ?case
  proof (cases "c = bslash")
    case True
    with "3.prems"(1) have dd: "d = bslash \<or> d = q" and ok: "escaped_ok q cs" by auto
    have src': "src = (pre @ [c, d]) @ cs @ post" by (simp add: "3.prems"(4))
    have IH: "scan st src [length (pre @ [c, d])..<length (pre @ [c, d]) + length cs] s = Inr s"
      by (rule "3.IH"(1)[OF True ok "3.prems"(2,3) src'])
    have s1: "step st src (length pre) s = Inr (s\<lparr>state := EscapeLongArgument\<rparr>)"
      using c True "3.prems"(2,3) quote_char_not_bslash(2)[of "longType s"]
      by (simp add: step_LongArgument)
    have s2: "step st src (Suc (length pre)) (s\<lparr>state := EscapeLongArgument\<rparr>) = Inr s"
      using d dd "3.prems"(2,3) by (auto simp: step_EscapeLongArgument)
    have r: "scan st src [Suc (Suc (length pre))..<length pre + length (c # d # cs)] s = Inr s"
      using IH by simp
    have "scan st src [Suc (length pre)..<length pre + length (c # d # cs)]
            (s\<lparr>state := EscapeLongArgument\<rparr>) = Inr s"
      by (rule scan_cons[OF _ s2 r]) simp
    then show ?thesis
      by (intro scan_cons[OF _ s1]) simp_all
  next
    case False
    with "3.prems"(1) have cq: "c \<noteq> q" and ok: "escaped_ok q (d # cs)" by auto
    have src': "src = (pre @ [c]) @ (d # cs) @ post" by (simp add: "3.prems"(4))
    have IH: "scan st src [length (pre @ [c])..<length (pre @ [c]) + length (d # cs)] s = Inr s"
      by (rule "3.IH"(2)[OF False ok "3.prems"(2,3) src'])
    have s1: "step st src (length pre) s = Inr s"
      using c False cq "3.prems"(2,3) by (simp add: step_LongArgument)
    have r: "scan st src [Suc (length pre)..<length pre + length (c # d # cs)] s = Inr s"
      using IH by simp
    show ?thesis
      by (rule scan_cons[OF _ s1 r]) simp
  qed
qed


lemma scan_LongParam_body:
  assumes "escaped_ok q body" "q = quote_char (longType s)" "state s = LongParam"
    and "src = pre @ body @ post"
  shows "scan st src [length pre..<length pre + length body] s = Inr s"
  using assms
proof (induction q body arbitrary: pre rule: escaped_ok.induct)
  case (1 q)
  show ?case by simp
next
  case (2 q c)
  have "src ! length pre = c" by (simp add: "2.prems"(4))
  then have "step st src (length pre) s = Inr s"
    using "2.prems" by (simp add: step_LongParam)
  then show ?case by simp
next
  case (3 q c d cs)
  have c: "src ! length pre = c" by (simp add: "3.prems"(4))
  have "src = (pre @ [c]) @ d # cs @ post" by (simp add: "3.prems"(4))
  then have "src ! length (pre @ [c]) = d" by (metis nth_after)
  then have d: "src ! Suc (length pre) = d" by simp
  show ?case
  proof (cases "c = bslash")
    case True
    with "3.prems"(1) have dd: "d = bslash \<or> d = q" and ok: "escaped_ok q cs" by auto
    have src': "src = (pre @ [c, d]) @ cs @ post" by (simp add: "3.prems"(4))
    have IH: "scan st src [length (pre @ [c, d])..<length (pre @ [c, d]) + length cs] s = Inr s"
      by (rule "3.IH"(1)[OF True ok "3.prems"(2,3) src'])
    have s1: "step st src (length pre) s = Inr (s\<lparr>state := EscapeLongParam\<rparr>)"
      using c True "3.prems"(2,3) quote_char_not_bslash(2)[of "longType s"]
      by (simp add: step_LongParam)
    have s2: "step st src (Suc (length pre)) (s\<lparr>state := EscapeLongParam\<rparr>) = Inr s"
      using d dd "3.prems"(2,3) by (auto simp: step_EscapeLongParam)
    have r: "scan st src [Suc (Suc (length pre))..<length pre + length (c # d # cs)] s = Inr s"
      using IH by simp
    have "scan st src [Suc (length pre)..<length pre + length (c # d # cs)]
            (s\<lparr>state := EscapeLongParam\<rparr>) = Inr s"
      by (rule scan_cons[OF _ s2 r]) simp
    then show ?thesis
      by (intro scan_cons[OF _ s1]) simp_all
  next
    case False
    with "3.prems"(1) have cq: "c \<noteq> q" and ok: "escaped_ok q (d # cs)" by auto
    have src': "src = (pre @ [c]) @ (d # cs) @ post" by (simp add: "3.prems"(4))
    have IH: "scan st src [length (pre @ [c])..<length (pre @ [c]) + length (d # cs)] s = Inr s"
      by (rule "3.IH"(2)[OF False ok "3.prems"(2,3) src'])
    have s1: "step st src (length pre) s = Inr s"
      using c False cq "3.prems"(2,3) by (simp add: step_LongParam)
    have r: "scan st src [Suc (length pre)..<length pre + length (c # d # cs)] s = Inr s"
      using IH by simp
    show ?thesis
      by (rule scan_cons[OF _ s1 r]) simp
  qed
qed

lemma scan_long_argument:
  assumes s: "state s = Default"
    and O: "js_index (optionPrefix st) 0 \<noteq> Some (quote_char lt)"
    and ok: "escaped_ok (quote_char lt) body"
    and src: "src = pre @ quote_char lt # body @ quote_char lt # post"
  shows "scan st src [length pre..<Suc (Suc (length pre + length body))] s =
     Inr (s\<lparr>state := Default, bufferStartIndex := Suc (length pre + length body),
            longType := lt,
            command := (command s)\<lparr>arguments :=
              arguments (command s) @ [unescape lt body]\<rparr>\<rparr>)"
proof -
  let ?q = "quote_char lt"
  let ?a = "length pre"
  let ?b = "Suc (?a + length body)"
  let ?s1 = "s\<lparr>state := LongArgument, bufferStartIndex := Suc ?a, longType := lt\<rparr>"
  have src1: "src = (pre @ [?q]) @ body @ (?q # post)" by (simp add: src)
  have src2: "src = (pre @ ?q # body) @ ?q # post" by (simp add: src)
  have at_a: "src ! ?a = ?q" by (simp add: src)
  have "src ! length (pre @ ?q # body) = ?q" by (subst src2) (rule nth_after)
  then have at_b: "src ! ?b = ?q" by simp
  have "substring src (length (pre @ [?q])) (length (pre @ [?q]) + length body) = body"
    by (subst src1) (rule substring_mid)
  then have sub: "substring src (Suc ?a) ?b = body" by simp
  have r1: "step st src ?a s = Inr ?s1"
    using s O at_a quote_char_cases[of lt] quote_char_not_space(1)[of lt]
    by (auto simp: step_Default long_type_of_quote_char)
  have "scan st src [length (pre @ [?q])..<length (pre @ [?q]) + length body] ?s1 = Inr ?s1"
    by (rule scan_LongArgument_body[OF ok _ _ src1]) simp_all
  then have r2: "scan st src [Suc ?a..<?b] ?s1 = Inr ?s1" by simp
  have r3: "step st src ?b ?s1 =
      Inr (s\<lparr>state := Default, bufferStartIndex := ?b, longType := lt,
             command := (command s)\<lparr>arguments := arguments (command s) @ [unescape lt body]\<rparr>\<rparr>)"
    using at_b sub by (simp add: step_LongArgument)
  have "scan st src [?a..<?b] s = Inr ?s1"
    by (rule scan_cons[OF _ r1 r2]) simp
  then show ?thesis
    by (intro scan_snoc[OF _ _ r3]) simp_all
qed

lemma scan_long_param:
  assumes s: "state s = ParamConnector"
    and ok: "escaped_ok (quote_char lt) body"
    and src: "src = pre @ quote_char lt # body @ quote_char lt # post"
  shows "scan st src [length pre..<Suc (Suc (length pre + length body))] s =
     Inr (s\<lparr>state := Default, bufferStartIndex := Suc (length pre + length body),
            longType := lt,
            command := (command s)\<lparr>parameters :=
              map_set (keyBuffer s) (unescape lt body) (parameters (command s))\<rparr>\<rparr>)"
proof -
  let ?q = "quote_char lt"
  let ?a = "length pre"
  let ?b = "Suc (?a + length body)"
  let ?s1 = "s\<lparr>state := LongParam, bufferStartIndex := Suc ?a, longType := lt\<rparr>"
  have src1: "src = (pre @ [?q]) @ body @ (?q # post)" by (simp add: src)
  have src2: "src = (pre @ ?q # body) @ ?q # post" by (simp add: src)
  have at_a: "src ! ?a = ?q" by (simp add: src)
  have "src ! length (pre @ ?q # body) = ?q" by (subst src2) (rule nth_after)
  then have at_b: "src ! ?b = ?q" by simp
  have "substring src (length (pre @ [?q])) (length (pre @ [?q]) + length body) = body"
    by (subst src1) (rule substring_mid)
  then have sub: "substring src (Suc ?a) ?b = body" by simp
  have r1: "step st src ?a s = Inr ?s1"
    using s at_a quote_char_cases[of lt] quote_char_not_space(1)[of lt]
    by (auto simp: step_ParamConnector long_type_of_quote_char)
  have "scan st src [length (pre @ [?q])..<length (pre @ [?q]) + length body] ?s1 = Inr ?s1"
    by (rule scan_LongParam_body[OF ok _ _ src1]) simp_all
  then have r2: "scan st src [Suc ?a..<?b] ?s1 = Inr ?s1" by simp
  have r3: "step st src ?b ?s1 =
      Inr (s\<lparr>state := Default, bufferStartIndex := ?b, longType := lt,
             command := (command s)\<lparr>parameters :=
               map_set (keyBuffer s) (unescape lt body) (parameters (command s))\<rparr>\<rparr>)"
    using at_b sub by (simp add: step_LongParam)
  have "scan st src [?a..<?b] s = Inr ?s1"
    by (rule scan_cons[OF _ r1 r2]) simp
  then show ?thesis
    by (intro scan_snoc[OF _ _ r3]) simp_all
qed

text \<open>The option prefix, a key and the colon, from the Default state.\<close>

lemma scan_param_key:
  assumes s: "state s = Default"
    and O: "optionPrefix st \<noteq> []" "optionPrefix st ! 0 \<noteq> space"
    and key: "key \<noteq> []" "space \<notin> set key" "colon \<notin> set key"
    and src: "src = pre @ optionPrefix st @ key @ colon # post"
  shows "scan st src [length pre..<Suc (length pre + length (optionPrefix st) + length key)] s =
     Inr (s\<lparr>state := ParamConnector,
            bufferStartIndex := length pre + length (optionPrefix st) + length key,
            keyBuffer := key\<rparr>)"
proof -
  let ?O = "optionPrefix st"
  let ?a = "length pre"
  let ?b = "?a + length ?O"
  let ?c = "?b + length key"
  let ?s1 = "s\<lparr>state := OptionPrefix, bufferStartIndex := ?a\<rparr>"
  let ?s2 = "s\<lparr>state := Option, bufferStartIndex := ?b\<rparr>"
  let ?s3 = "s\<lparr>state := ParamConnector, bufferStartIndex := ?c, keyBuffer := key\<rparr>"
  have src1: "src = pre @ ?O @ (key @ colon # post)" by (simp add: src)
  have src2: "src = (pre @ ?O) @ key @ (colon # post)" by (simp add: src)
  have src3: "src = (pre @ ?O @ key) @ colon # post" by (simp add: src)
  have at_O: "src ! (?a + m) = ?O ! m" if "m < length ?O" for m
    using that by (subst src1) (simp only: nth_mid)
  have at_key: "src ! (?b + m) = key ! m" if "m < length key" for m
  proof -
    have "src ! (length (pre @ ?O) + m) = key ! m"
      using that by (subst src2) (simp only: nth_mid)
    then show ?thesis by simp
  qed
  have key_ok: "src ! m \<noteq> space \<and> src ! m \<noteq> colon" if "?b \<le> m" "m < ?c" for m
  proof -
    have n: "m - ?b < length key" "m = ?b + (m - ?b)" using that by simp_all
    have "src ! m = key ! (m - ?b)" using at_key[OF n(1)] n(2) by simp
    then show ?thesis using key(2,3) n(1) by (metis nth_mem)
  qed
  have "src ! length (pre @ ?O @ key) = colon" by (subst src3) (rule nth_after)
  then have at_c: "src ! ?c = colon" by (simp add: add.assoc)
  have "substring src (length (pre @ ?O)) (length (pre @ ?O) + length key) = key"
    by (subst src2) (rule substring_mid)
  then have sub: "substring src ?b ?c = key" by simp
  have "src ! ?a = ?O ! 0" using at_O[of 0] O(1) by simp
  then have r1: "step st src ?a s = Inr ?s1"
    using s O by (simp add: step_Default js_index_def)
  have r2: "scan st src [Suc ?a..<?b] ?s1 = Inr ?s1"
  proof (rule scan_run_id)
    fix m assume m: "Suc ?a \<le> m" "m < ?b"
    then have n: "m - ?a < length ?O" by simp
    have "src ! (?a + (m - ?a)) = ?O ! (m - ?a)" by (rule at_O[OF n])
    then have "src ! m = ?O ! (m - ?a)" using m by simp
    then show "step st src m ?s1 = Inr ?s1"
      using m n by (simp add: step_OptionPrefix Let_def)
  qed
  have lt_bc: "?b < ?c" using key(1) by simp
  have r3: "step st src ?b ?s1 = Inr ?s2"
    using key_ok[of ?b] lt_bc by (simp add: step_OptionPrefix Let_def)
  have r4: "scan st src [Suc ?b..<?c] ?s2 = Inr ?s2"
    using key_ok by (intro scan_run_id) (simp add: step_Option)
  have r5: "step st src ?c ?s2 = Inr ?s3"
    using at_c sub by (simp add: step_Option)
  have "?a < ?b" using O(1) by simp
  then have A0: "scan st src [?a..<?b] s = Inr ?s1"
    by (rule scan_cons[OF _ r1 r2])
  have A1: "scan st src [?b..<?c] ?s1 = Inr ?s2"
    by (rule scan_cons[OF lt_bc r3 r4])
  have A2: "scan st src [?a..<?c] s = Inr ?s2"
    by (rule scan_chain[OF _ _ A0 A1]) simp_all
  show ?thesis
    by (rule scan_snoc[OF _ A2 r5]) simp
qed

lemma parse_name_then:
  assumes gate: "validSettings st \<or> forceParse st = Some True"
    and nm: "nm \<noteq> []" "space \<notin> set nm"
    and run: "scan st (prefix st @ nm @ space # tok @ [space])
                [Suc (length (prefix st) + length nm)
                   ..<Suc (length (prefix st) + length nm) + length tok]
                \<lparr>state = Default, bufferStartIndex = length (prefix st) + length nm,
                 keyBuffer = [], longType = DoubleTick,
                 command = \<lparr>parserSettings = st, name = nm, arguments = [], options = [],
                   parameters = [], source = prefix st @ nm @ space # tok,
                   passedChecks = validSettings st\<rparr>\<rparr> = Inr s'"
    and s': "state s' = Default"
  shows "parse st (prefix st @ nm @ space # tok) = Inr (command s')"
proof -
  let ?B = "length (prefix st) + length nm"
  let ?src' = "prefix st @ nm @ space # tok @ [space]"
  let ?n = "Suc ?B + length tok"
  let ?sD = "\<lparr>state = Default, bufferStartIndex = ?B,
                 keyBuffer = [], longType = DoubleTick,
                 command = \<lparr>parserSettings = st, name = nm, arguments = [], options = [],
                   parameters = [], source = prefix st @ nm @ space # tok,
                   passedChecks = validSettings st\<rparr>\<rparr>"
  have p: "parse st (prefix st @ nm @ space # tok) =
     (case scan st (prefix st @ nm @ (space # tok) @ [space])
             [Suc ?B..<Suc (?B + length (space # tok))] ?sD of
        Inl e \<Rightarrow> Inl e
      | Inr s \<Rightarrow> Inr (command s))"
    by (rule parse_after_name[OF gate nm]) simp
  have e: "prefix st @ nm @ (space # tok) @ [space] = ?src'" by simp
  have e': "?src' = (prefix st @ nm @ space # tok) @ space # []" by simp
  have "?src' ! length (prefix st @ nm @ space # tok) = space"
    by (subst e') (rule nth_after)
  then have "?src' ! ?n = space" by (simp add: add.assoc)
  then have last: "step st ?src' ?n s' = Inr s'"
    using s' by (simp add: step_Default)
  have "scan st ?src' [Suc ?B..<Suc ?n] ?sD = Inr s'"
    by (rule scan_snoc[OF _ run last]) simp
  moreover have "Suc (?B + length (space # tok)) = Suc ?n" by simp
  ultimately show ?thesis unfolding p e by simp
qed

text \<open>
  C3. The value recorded when a quoted token closes. For a command name \<open>nm\<close>, a quote \<open>q\<close> and a
  text \<open>body\<close> that the Long and Escape states accept, the source \<open>prefix nm q body q\<close> yields the
  single argument, and the source \<open>prefix nm optionPrefix key:q body q\<close> the single parameter
  value, obtained from \<open>body\<close> by replacing every backslash followed by \<open>q\<close> with \<open>q\<close> and then, in
  the result, every two consecutive backslashes with one backslash. Two backslashes between
  accepted texts \<open>xs\<close> and \<open>ys\<close> become one backslash between their values.
\<close>

theorem long_token_unescape:
  assumes "validSettings st \<or> forceParse st = Some True"
    and "nm \<noteq> []" "space \<notin> set nm"
    and "escaped_ok (quote_char lt) body"
  shows "(js_index (optionPrefix st) 0 \<noteq> Some (quote_char lt) \<longrightarrow>
          parse st (prefix st @ nm @ space # quote_char lt # body @ [quote_char lt]) =
            Inr \<lparr>parserSettings = st, name = nm,
                 arguments = [replace_all2 bslash bslash [bslash]
                                (replace_all2 bslash (quote_char lt) [quote_char lt] body)],
                 options = [], parameters = [],
                 source = prefix st @ nm @ space # quote_char lt # body @ [quote_char lt],
                 passedChecks = validSettings st\<rparr>)
       \<and> (optionPrefix st \<noteq> [] \<and> optionPrefix st ! 0 \<noteq> space
            \<and> key \<noteq> [] \<and> space \<notin> set key \<and> colon \<notin> set key \<longrightarrow>
          parse st (prefix st @ nm @ space # optionPrefix st @ key
                      @ colon # quote_char lt # body @ [quote_char lt]) =
            Inr \<lparr>parserSettings = st, name = nm, arguments = [], options = [],
                 parameters = [(key, replace_all2 bslash bslash [bslash]
                                (replace_all2 bslash (quote_char lt) [quote_char lt] body))],
                 source = prefix st @ nm @ space # optionPrefix st @ key
                      @ colon # quote_char lt # body @ [quote_char lt],
                 passedChecks = validSettings st\<rparr>)
       \<and> (escaped_ok (quote_char lt) xs \<and> escaped_ok (quote_char lt) ys \<longrightarrow>
            unescape lt (xs @ [bslash, bslash] @ ys)
              = unescape lt xs @ [bslash] @ unescape lt ys)"
proof (intro conjI impI)
  let ?q = "quote_char lt"
  let ?P = "prefix st"
  let ?O = "optionPrefix st"
  let ?B = "length ?P + length nm"
  {
    assume O: "js_index ?O 0 \<noteq> Some ?q"
    let ?tok = "?q # body @ [?q]"
    let ?src' = "?P @ nm @ space # ?tok @ [space]"
    let ?sD = "\<lparr>state = Default, bufferStartIndex = ?B,
                 keyBuffer = [], longType = DoubleTick,
                 command = \<lparr>parserSettings = st, name = nm, arguments = [], options = [],
                   parameters = [], source = ?P @ nm @ space # ?tok,
                   passedChecks = validSettings st\<rparr>\<rparr>"
    let ?s' = "?sD\<lparr>state := Default, bufferStartIndex := Suc (length (?P @ nm @ [space]) + length body),
            longType := lt,
            command := (command ?sD)\<lparr>arguments :=
              arguments (command ?sD) @ [unescape lt body]\<rparr>\<rparr>"
    have src: "?src' = (?P @ nm @ [space]) @ ?q # body @ ?q # [space]" by simp
    have "scan st ?src' [length (?P @ nm @ [space])
                           ..<Suc (Suc (length (?P @ nm @ [space]) + length body))] ?sD = Inr ?s'"
      by (rule scan_long_argument[OF _ O assms(4) src]) simp
    then have run: "scan st ?src' [Suc ?B..<Suc ?B + length ?tok] ?sD = Inr ?s'"
      by simp
    have "parse st (?P @ nm @ space # ?tok) = Inr (command ?s')"
      by (rule parse_name_then[OF assms(1-3) run]) simp
    then show "parse st (?P @ nm @ space # ?q # body @ [?q]) =
            Inr \<lparr>parserSettings = st, name = nm,
                 arguments = [replace_all2 bslash bslash [bslash]
                                (replace_all2 bslash ?q [?q] body)],
                 options = [], parameters = [],
                 source = ?P @ nm @ space # ?q # body @ [?q],
                 passedChecks = validSettings st\<rparr>"
      by (simp add: unescape_def)
  }
  {
    assume h: "?O \<noteq> [] \<and> ?O ! 0 \<noteq> space \<and> key \<noteq> [] \<and> space \<notin> set key \<and> colon \<notin> set key"
    let ?tok = "?O @ key @ colon # ?q # body @ [?q]"
    let ?src' = "?P @ nm @ space # ?tok @ [space]"
    let ?sD = "\<lparr>state = Default, bufferStartIndex = ?B,
                 keyBuffer = [], longType = DoubleTick,
                 command = \<lparr>parserSettings = st, name = nm, arguments = [], options = [],
                   parameters = [], source = ?P @ nm @ space # ?tok,
                   passedChecks = validSettings st\<rparr>\<rparr>"
    let ?pre = "?P @ nm @ [space]"
    let ?pre2 = "?pre @ ?O @ key @ [colon]"
    let ?s1 = "?sD\<lparr>state := ParamConnector,
            bufferStartIndex := length ?pre + length ?O + length key,
            keyBuffer := key\<rparr>"
    let ?s2 = "?s1\<lparr>state := Default, bufferStartIndex := Suc (length ?pre2 + length body),
            longType := lt,
            command := (command ?s1)\<lparr>parameters :=
              map_set (keyBuffer ?s1) (unescape lt body) (parameters (command ?s1))\<rparr>\<rparr>"
    have src1: "?src' = ?pre @ ?O @ key @ colon # (?q # body @ ?q # [space])" by simp
    have src2: "?src' = ?pre2 @ ?q # body @ ?q # [space]" by simp
    have r1: "scan st ?src' [length ?pre..<Suc (length ?pre + length ?O + length key)] ?sD
                = Inr ?s1"
      using h by (intro scan_param_key[OF _ _ _ _ _ _ src1]) simp_all
    have r2: "scan st ?src' [length ?pre2..<Suc (Suc (length ?pre2 + length body))] ?s1
                = Inr ?s2"
      by (rule scan_long_param[OF _ assms(4) src2]) simp
    have e: "length ?pre2 = Suc (length ?pre + length ?O + length key)" by simp
    have "scan st ?src' [length ?pre..<Suc (Suc (length ?pre2 + length body))] ?sD = Inr ?s2"
      by (rule scan_chain[OF _ _ r1 r2[unfolded e], folded e]) simp_all
    then have run: "scan st ?src' [Suc ?B..<Suc ?B + length ?tok] ?sD = Inr ?s2"
      by (simp add: add.assoc)
    have "parse st (?P @ nm @ space # ?tok) = Inr (command ?s2)"
      by (rule parse_name_then[OF assms(1-3) run]) simp
    then show "parse st (?P @ nm @ space # ?O @ key @ colon # ?q # body @ [?q]) =
            Inr \<lparr>parserSettings = st, name = nm, arguments = [], options = [],
                 parameters = [(key, replace_all2 bslash bslash [bslash]
                                (replace_all2 bslash ?q [?q] body))],
                 source = ?P @ nm @ space # ?O @ key @ colon # ?q # body @ [?q],
                 passedChecks = validSettings st\<rparr>"
      by (simp add: unescape_def)
  }
  {
    assume "escaped_ok ?q xs \<and> escaped_ok ?q ys"
    then show "unescape lt (xs @ [bslash, bslash] @ ys)
                 = unescape lt xs @ [bslash] @ unescape lt ys"
      using unescape_backslash_pair[of lt xs ys] by simp
  }
qed

theorem long_token_unescape_witness:
  "parse bang_dash (''!x '' @ [dquote] @ ''a'' @ [bslash, dquote] @ ''b'' @ [dquote]) =
      Inr \<lparr>parserSettings = bang_dash, name = ''x'', arguments = [''a'' @ [dquote] @ ''b''],
           options = [], parameters = [],
           source = ''!x '' @ [dquote] @ ''a'' @ [bslash, dquote] @ ''b'' @ [dquote],
           passedChecks = True\<rparr>
   \<and> parse bang_dash (''!x -k:'' @ [dquote] @ ''a'' @ [bslash, dquote] @ ''b'' @ [dquote]) =
      Inr \<lparr>parserSettings = bang_dash, name = ''x'', arguments = [],
           options = [], parameters = [(''k'', ''a'' @ [dquote] @ ''b'')],
           source = ''!x -k:'' @ [dquote] @ ''a'' @ [bslash, dquote] @ ''b'' @ [dquote],
           passedChecks = True\<rparr>
   \<and> unescape DoubleTick (''a'' @ [bslash, dquote] @ ''b'' @ [bslash, bslash] @ ''c'')
        = ''a'' @ [dquote] @ ''b'' @ [bslash] @ ''c''"
proof -
  have v: "validSettings bang_dash \<or> forceParse bang_dash = Some True" by code_simp
  have v': "validSettings bang_dash" by code_simp
  have ok: "escaped_ok (quote_char DoubleTick) (''a'' @ [bslash, dquote] @ ''b'')" by simp
  have okc: "escaped_ok (quote_char DoubleTick) ''c''" by simp
  have u: "unescape DoubleTick (''a'' @ [bslash, dquote] @ ''b'') = ''a'' @ [dquote] @ ''b''"
    by (simp add: unescape_def)
  have uc: "unescape DoubleTick ''c'' = ''c''"
    by (simp add: unescape_def)
  note t = long_token_unescape[OF v _ _ ok, of "''x''" "''k''" "''a'' @ [bslash, dquote] @ ''b''" "''c''"]
  have 1: "parse bang_dash (''!x '' @ [dquote] @ ''a'' @ [bslash, dquote] @ ''b'' @ [dquote]) =
      Inr \<lparr>parserSettings = bang_dash, name = ''x'', arguments = [''a'' @ [dquote] @ ''b''],
           options = [], parameters = [],
           source = ''!x '' @ [dquote] @ ''a'' @ [bslash, dquote] @ ''b'' @ [dquote],
           passedChecks = True\<rparr>"
    using t v' by (simp add: bang_dash_def js_index_def)
  have 2: "parse bang_dash (''!x -k:'' @ [dquote] @ ''a'' @ [bslash, dquote] @ ''b'' @ [dquote]) =
      Inr \<lparr>parserSettings = bang_dash, name = ''x'', arguments = [],
           options = [], parameters = [(''k'', ''a'' @ [dquote] @ ''b'')],
           source = ''!x -k:'' @ [dquote] @ ''a'' @ [bslash, dquote] @ ''b'' @ [dquote],
           passedChecks = True\<rparr>"
    using t v' by (simp add: bang_dash_def js_index_def)
  have 3: "unescape DoubleTick (''a'' @ [bslash, dquote] @ ''b'' @ [bslash, bslash] @ ''c'')
        = ''a'' @ [dquote] @ ''b'' @ [bslash] @ ''c''"
    using t ok okc u uc by simp
  show ?thesis using 1 2 3 by blast
qed

lemma readme_example:
  "parse bang_dash
     (''!ping '' @ [dquote] @ ''a long arg '' @ [bslash, bslash, bslash, dquote] @ '' and ''
        @ [bslash, dquote, dquote] @ '' -some-option -some-option '' @ [squote] @ ''buh ''
        @ [bslash, squote, squote] @ '' -key:'' @ [squote] @ ''value'' @ [squote]) =
   Inr \<lparr>parserSettings = bang_dash, name = ''ping'',
        arguments = [''a long arg '' @ [bslash, dquote] @ '' and '' @ [dquote],
                     ''buh '' @ [squote]],
        options = [''some-option''], parameters = [(''key'', ''value'')],
        source = ''!ping '' @ [dquote] @ ''a long arg '' @ [bslash, bslash, bslash, dquote]
          @ '' and '' @ [bslash, dquote, dquote] @ '' -some-option -some-option '' @ [squote]
          @ ''buh '' @ [bslash, squote, squote] @ '' -key:'' @ [squote] @ ''value'' @ [squote],
        passedChecks = True\<rparr>"
  by code_simp

text \<open>An unterminated quoted argument after the name: dropped when its text is accepted, an
  error when the source ends with an escaping backslash.\<close>

lemma unterminated_argument_dropped:
  assumes gate: "validSettings st \<or> forceParse st = Some True"
    and nm: "nm \<noteq> []" "space \<notin> set nm"
    and O: "js_index (optionPrefix st) 0 \<noteq> Some (quote_char lt)"
    and ok: "escaped_ok (quote_char lt) body"
  shows "parse st (prefix st @ nm @ space # quote_char lt # body) =
     Inr \<lparr>parserSettings = st, name = nm, arguments = [], options = [], parameters = [],
          source = prefix st @ nm @ space # quote_char lt # body,
          passedChecks = validSettings st\<rparr>"
proof -
  let ?q = "quote_char lt"
  let ?P = "prefix st"
  let ?B = "length ?P + length nm"
  let ?tail = "space # ?q # body"
  let ?src' = "?P @ nm @ ?tail @ [space]"
  let ?sD = "\<lparr>state = Default, bufferStartIndex = ?B,
                 keyBuffer = [], longType = DoubleTick,
                 command = \<lparr>parserSettings = st, name = nm, arguments = [], options = [],
                   parameters = [], source = ?P @ nm @ ?tail,
                   passedChecks = validSettings st\<rparr>\<rparr>"
  let ?s1 = "?sD\<lparr>state := LongArgument, bufferStartIndex := Suc (Suc ?B), longType := lt\<rparr>"
  have p: "parse st (?P @ nm @ ?tail) =
     (case scan st ?src' [Suc ?B..<Suc (?B + length ?tail)] ?sD of
        Inl e \<Rightarrow> Inl e
      | Inr s \<Rightarrow> Inr (command s))"
    by (rule parse_after_name[OF gate nm]) simp
  have src1: "?src' = (?P @ nm @ [space]) @ ?q # (body @ [space])" by simp
  have src2: "?src' = (?P @ nm @ [space, ?q]) @ (body @ [space]) @ []" by simp
  have "?src' ! length (?P @ nm @ [space]) = ?q" by (subst src1) (rule nth_after)
  then have at: "?src' ! Suc ?B = ?q" by simp
  have r1: "step st ?src' (Suc ?B) ?sD = Inr ?s1"
    using O at quote_char_cases[of lt] quote_char_not_space(1)[of lt]
    by (auto simp: step_Default long_type_of_quote_char)
  have ok': "escaped_ok ?q (body @ [space])"
    by (rule escaped_ok_append[OF ok]) (simp add: quote_char_not_space)
  have "scan st ?src' [length (?P @ nm @ [space, ?q])
                         ..<length (?P @ nm @ [space, ?q]) + length (body @ [space])] ?s1 = Inr ?s1"
    by (rule scan_LongArgument_body[OF ok' _ _ src2]) simp_all
  then have r2: "scan st ?src' [Suc (Suc ?B)..<Suc (?B + length ?tail)] ?s1 = Inr ?s1"
    by (simp add: add.assoc)
  have "scan st ?src' [Suc ?B..<Suc (?B + length ?tail)] ?sD = Inr ?s1"
    by (rule scan_cons[OF _ r1 r2]) simp
  then show ?thesis unfolding p by simp
qed

lemma unterminated_escape_error:
  assumes gate: "validSettings st \<or> forceParse st = Some True"
    and nm: "nm \<noteq> []" "space \<notin> set nm"
    and O: "js_index (optionPrefix st) 0 \<noteq> Some (quote_char lt)"
    and ok: "escaped_ok (quote_char lt) body"
  shows "parse st (prefix st @ nm @ space # quote_char lt # body @ [bslash]) =
     Inl (ParseError (length (prefix st @ nm @ space # quote_char lt # body @ [bslash]))
            (msg_escape space))"
proof -
  let ?q = "quote_char lt"
  let ?P = "prefix st"
  let ?B = "length ?P + length nm"
  let ?tail = "space # ?q # body @ [bslash]"
  let ?src = "?P @ nm @ ?tail"
  let ?src' = "?src @ [space]"
  let ?n = "Suc (Suc ?B) + length body"
  let ?s0 = "init_state st ?src (validSettings st)"
  let ?sD = "?s0\<lparr>state := Default, bufferStartIndex := ?B,
                 command := (command ?s0)\<lparr>name := nm\<rparr>\<rparr>"
  let ?s1 = "?sD\<lparr>state := LongArgument, bufferStartIndex := Suc (Suc ?B), longType := lt\<rparr>"
  let ?s2 = "?s1\<lparr>state := EscapeLongArgument\<rparr>"
  have src0: "?src' = ?P @ nm @ space # (?q # body @ [bslash, space])" by simp
  have src1: "?src' = (?P @ nm @ [space]) @ ?q # (body @ [bslash, space])" by simp
  have src2: "?src' = (?P @ nm @ [space, ?q]) @ body @ [bslash, space]" by simp
  have src3: "?src' = (?P @ nm @ space # ?q # body) @ bslash # [space]" by simp
  have r0: "scan st ?src' [0..<Suc ?B] ?s0 = Inr ?sD"
    by (rule scan_name[OF src0 nm]) (simp_all add: init_state_simps)
  have "?src' ! length (?P @ nm @ [space]) = ?q" by (subst src1) (rule nth_after)
  then have at: "?src' ! Suc ?B = ?q" by simp
  have r1: "step st ?src' (Suc ?B) ?sD = Inr ?s1"
    using O at quote_char_cases[of lt] quote_char_not_space(1)[of lt]
    by (auto simp: step_Default long_type_of_quote_char init_state_simps)
  have "scan st ?src' [length (?P @ nm @ [space, ?q])
                         ..<length (?P @ nm @ [space, ?q]) + length body] ?s1 = Inr ?s1"
    by (rule scan_LongArgument_body[OF ok _ _ src2]) (simp_all add: init_state_simps)
  then have r2: "scan st ?src' [Suc (Suc ?B)..<?n] ?s1 = Inr ?s1" by simp
  have "?src' ! length (?P @ nm @ space # ?q # body) = bslash" by (subst src3) (rule nth_after)
  then have atb: "?src' ! ?n = bslash" by (simp add: add.assoc)
  have r3: "step st ?src' ?n ?s1 = Inr ?s2"
    using atb quote_char_not_bslash(2)[of lt] by (simp add: step_LongArgument)
  have a: "scan st ?src' [Suc ?B..<?n] ?sD = Inr ?s1"
    by (rule scan_cons[OF _ r1 r2]) simp
  have b: "scan st ?src' [0..<?n] ?s0 = Inr ?s1"
    by (rule scan_chain[OF _ _ r0 a]) simp_all
  have c: "scan st ?src' [0..<Suc ?n] ?s0 = Inr ?s2"
    by (rule scan_snoc[OF _ b r3]) simp
  have len: "length ?src = Suc ?n" by simp
  have run: "scan st ?src' [0..<length ?src] ?s0 = Inr ?s2"
    unfolding len by (rule c)
  have "parse st ?src =
     (case step st ?src' (length ?src) ?s2 of Inl e \<Rightarrow> Inl e | Inr s' \<Rightarrow> Inr (command s'))"
    by (rule parse_sentinel[OF gate run])
  moreover have "?src' ! length ?src = space" by (rule sentinel_char)
  ultimately show ?thesis
    by (simp add: step_EscapeLongArgument quote_char_not_space del: length_append)
qed

section \<open>Invariants of the returned Command\<close>

lemma set_add_set: "set (set_add x xs) = insert x (set xs)"
  by (induction xs) auto

lemma set_add_distinct: "distinct xs \<Longrightarrow> distinct (set_add x xs)"
  by (induction xs) (auto simp: set_add_set)

lemma set_add_present: "x \<in> set xs \<Longrightarrow> set_add x xs = xs"
  by (induction xs) auto

lemma map_set_keys: "set (map fst (map_set k v ps)) = insert k (set (map fst ps))"
  by (induction ps) auto

lemma map_set_distinct: "distinct (map fst ps) \<Longrightarrow> distinct (map fst (map_set k v ps))"
proof (induction ps)
  case Nil
  show ?case by simp
next
  case (Cons p ps)
  have "fst p \<notin> fst ` set (map_set k v ps)" if "fst p \<noteq> k"
    using that Cons.prems map_set_keys[of k v ps] by auto
  then show ?case using Cons by auto
qed

lemma map_get_map_set: "map_get (map_set k v ps) k' = (if k' = k then Some v else map_get ps k')"
  by (induction ps) auto

lemma step_containers_ok:
  assumes "containers_ok (command s)" "step st src i s = Inr s'"
  shows "containers_ok (command s')"
  using assms
  by (cases "state s")
    (auto simp: step_def Let_def containers_ok_def set_add_distinct map_set_distinct
      split: if_splits)

lemma scan_containers_ok:
  "containers_ok (command s) \<Longrightarrow> scan st src is s = Inr s' \<Longrightarrow> containers_ok (command s')"
proof (induction "is" arbitrary: s)
  case Nil
  then show ?case by simp
next
  case (Cons i "is")
  from Cons.prems(2) obtain t where t: "step st src i s = Inr t" "scan st src is t = Inr s'"
    by (auto split: sum.splits)
  from Cons.IH[OF step_containers_ok[OF Cons.prems(1) t(1)] t(2)] show ?case .
qed

lemma parse_containers_ok:
  assumes "parse st src = Inr cmd"
  shows "distinct (options cmd) \<and> distinct (map fst (parameters cmd))"
proof -
  have g: "validSettings st \<or> forceParse st = Some True"
    using assms parse_gate_closed[of st src] by auto
  from assms obtain s where
    s: "scan st (src @ [space]) [0..<Suc (length src)] (init_state st src (validSettings st)) = Inr s"
    and c: "cmd = command s"
    unfolding parse_gate_open[OF g] by (auto split: sum.splits)
  have "containers_ok (command (init_state st src (validSettings st)))"
    by (simp add: containers_ok_def init_state_def init_command_def)
  from scan_containers_ok[OF this s] c show ?thesis by (simp add: containers_ok_def)
qed

text \<open>Arguments are only ever appended.\<close>

lemma step_arguments:
  assumes "step st src i s = Inr s'"
  shows "\<exists>new. arguments (command s') = arguments (command s) @ new"
  using assms by (cases "state s") (auto simp: step_def Let_def split: if_splits)

lemma scan_arguments:
  "scan st src is s = Inr s' \<Longrightarrow> \<exists>new. arguments (command s') = arguments (command s) @ new"
proof (induction "is" arbitrary: s)
  case Nil
  then show ?case by simp
next
  case (Cons i "is")
  from Cons.prems obtain t where t: "step st src i s = Inr t" "scan st src is t = Inr s'"
    by (auto split: sum.splits)
  from step_arguments[OF t(1)] Cons.IH[OF t(2)] show ?case by auto
qed

lemma substring_nonempty: "a < b \<Longrightarrow> b \<le> length s \<Longrightarrow> substring s a b \<noteq> []"
  by (simp add: substring_def)

lemma step_name_inv:
  assumes "name_inv i s" "i < length src" "step st src i s = Inr s'"
  shows "name_inv (Suc i) s'"
proof (cases "state s = Name")
  case True
  then have "bufferStartIndex s < i" using assms(1) by (simp add: name_inv_def)
  then have "substring src (bufferStartIndex s) i \<noteq> []"
    using assms(2) by (intro substring_nonempty) simp_all
  then show ?thesis
    using True assms(1,3) by (auto simp: step_Name name_inv_def named_def split: if_splits)
next
  case False
  show ?thesis
  proof (cases "state s = Prefix")
    case True
    then show ?thesis
      using assms(3) by (auto simp: step_def Let_def name_inv_def named_def split: if_splits)
  next
    case False
    with \<open>state s \<noteq> Name\<close> have n: "named s" by (simp add: named_def)
    from step_named[OF n assms(3)] assms(1) n show ?thesis
      by (simp add: name_inv_def named_def)
  qed
qed

lemma scan_name_inv:
  assumes "name_inv 0 s" "n \<le> length src" "scan st src [0..<n] s = Inr s'"
  shows "name_inv n s'"
  using assms(2,3)
proof (induction n arbitrary: s')
  case 0
  then show ?case using assms(1) by simp
next
  case (Suc n)
  from Suc.prems(2) obtain t where t: "scan st src [0..<n] s = Inr t" "step st src n t = Inr s'"
    by (auto simp: scan_append split: sum.splits)
  have "name_inv n t" using Suc.IH[OF _ t(1)] Suc.prems(1) by simp
  from step_name_inv[OF this _ t(2)] Suc.prems(1) show ?case by simp
qed

lemma step_space_not_Name:
  assumes "src ! i = space" "step st src i s = Inr s'"
  shows "state s' \<noteq> Name"
  using assms by (cases "state s") (auto simp: step_def Let_def split: if_splits)

lemma scan_Prefix_matched:
  assumes "state s = Prefix" "bufferStartIndex s = 0"
    and "scan st src [0..<n] s = Inr s'" "state s' = Prefix"
  shows "\<forall>i<n. i < length (prefix st) \<and> src ! i = prefix st ! i"
  using assms(3,4)
proof (induction n arbitrary: s')
  case 0
  show ?case by simp
next
  case (Suc n)
  from Suc.prems(1) obtain t where t: "scan st src [0..<n] s = Inr t" "step st src n t = Inr s'"
    by (auto simp: scan_append split: sum.splits)
  have tP: "state t = Prefix" using step_not_Prefix[OF _ t(2)] Suc.prems(2) by blast
  have ts: "t = s" by (rule scan_Prefix_stays[OF assms(1) t(1) tP])
  have "n < length (prefix st) \<and> src ! n = prefix st ! n"
    using t(2) Suc.prems(2) assms(1,2) unfolding ts
    by (auto simp: step_Prefix split: if_splits)
  with Suc.IH[OF t(1) tP] show ?case by (auto simp: less_Suc_eq)
qed

text \<open>A returned Command has the empty name exactly when the source followed by a space is an
  initial segment of the prefix.\<close>

lemma parse_name_empty_iff:
  assumes "parse st src = Inr cmd"
  shows "name cmd = [] \<longleftrightarrow> src @ [space] = take (Suc (length src)) (prefix st)"
proof -
  let ?src' = "src @ [space]"
  let ?s0 = "init_state st src (validSettings st)"
  have g: "validSettings st \<or> forceParse st = Some True"
    using assms parse_gate_closed[of st src] by auto
  from assms obtain s where
    s: "scan st ?src' [0..<Suc (length src)] ?s0 = Inr s" and c: "cmd = command s"
    unfolding parse_gate_open[OF g] by (auto split: sum.splits)
  from s obtain t where t: "scan st ?src' [0..<length src] ?s0 = Inr t"
    "step st ?src' (length src) t = Inr s"
    by (auto simp: scan_append split: sum.splits)
  have notName: "state s \<noteq> Name"
    by (rule step_space_not_Name[OF _ t(2)]) simp
  have inv: "name_inv (Suc (length src)) s"
    by (rule scan_name_inv[OF _ _ s]) (simp_all add: name_inv_def named_def init_state_def)
  show ?thesis
  proof
    assume e: "name cmd = []"
    have "state s = Prefix"
      using inv notName e c by (auto simp: name_inv_def named_def)
    from scan_Prefix_matched[OF _ _ s this]
    have m: "\<forall>i<Suc (length src). i < length (prefix st) \<and> ?src' ! i = prefix st ! i"
      by (simp add: init_state_def)
    then have "length src < length (prefix st)" by blast
    then have "length ?src' = length (take (Suc (length src)) (prefix st))" by simp
    then show "?src' = take (Suc (length src)) (prefix st)"
      using m by (intro nth_equalityI) simp_all
  next
    assume e: "?src' = take (Suc (length src)) (prefix st)"
    have len: "Suc (length src) \<le> length (prefix st)"
    proof (rule ccontr)
      assume "\<not> Suc (length src) \<le> length (prefix st)"
      then have "length (take (Suc (length src)) (prefix st)) < Suc (length src)" by simp
      then show False using e by (metis length_append_singleton less_irrefl)
    qed
    have m: "?src' ! i = prefix st ! i" if "i < Suc (length src)" for i
      using that by (subst e) simp
    have "scan st ?src' [0..<Suc (length src)] ?s0 = Inr ?s0"
      using len m by (intro scan_prefix_run) (simp_all add: init_state_def)
    with s have "s = ?s0" by simp
    then show "name cmd = []" using c by (simp add: init_state_def init_command_def)
  qed
qed

section \<open>The empty name\<close>

text \<open>
  C6. The name of a returned Command can be empty: with the prefix \<open>do \<close>, which passes the
  twitch policy, the source \<open>do\<close> is matched together with the sentinel against the prefix, the
  scan ends in state Prefix, and \<open>parse\<close> returns the initial Command.
\<close>

theorem empty_name_returned:
  "validSettings do_dash
   \<and> parse do_dash ''do'' =
       Inr \<lparr>parserSettings = do_dash, name = [], arguments = [], options = [],
            parameters = [], source = ''do'', passedChecks = True\<rparr>"
  by code_simp

end
